theory Spec2Isabelle
  imports Complex_Main
begin

section \<open>JSON values and the codec of Python's \<open>json\<close> module\<close>

text \<open>
  The values \<open>json.dumps\<close> accepts and \<open>json.loads\<close> returns. A Python \<open>str\<close> is a
  \<open>string\<close> whose characters are the code points 0 to 255; a \<open>dict\<close> with \<open>str\<close>
  keys is the list of its items in insertion order (Python keeps the keys distinct). A
  finite Python \<open>float\<close> is represented by the text \<open>repr\<close> prints for it, which is
  what \<open>json.dumps\<close> writes: \<open>JFloat ''1730654321.5''\<close>. How a decimal text is rounded
  to a double is outside this model.
\<close>

datatype json =
    JNull
  | JBool bool
  | JInt int
  | JFloat string
  | JStr string
  | JList "json list"
  | JDict "(string \<times> json) list"

subsection \<open>Encoding (\<open>json.dumps\<close> with its defaults)\<close>

definition hex_digit :: "nat \<Rightarrow> char" where
  "hex_digit n = ''0123456789abcdef'' ! n"

text \<open>
  \<open>ESCAPE_ASCII = ([\\"]|[^\ -~])\<close>: the quote, the backslash and every character
  outside the printable ASCII range are replaced, the named control characters by their
  short escapes and the others by \<open>\uXXXX\<close>.
\<close>

definition escape_char :: "char \<Rightarrow> string" where
  "escape_char c =
     (if c = CHR 0x22 then [CHR 0x5C, CHR 0x22]
      else if c = CHR 0x5C then [CHR 0x5C, CHR 0x5C]
      else if c = CHR 0x0A then [CHR 0x5C, CHR ''n'']
      else if c = CHR 0x0D then [CHR 0x5C, CHR ''r'']
      else if c = CHR 0x09 then [CHR 0x5C, CHR ''t'']
      else if c = CHR 0x08 then [CHR 0x5C, CHR ''b'']
      else if c = CHR 0x0C then [CHR 0x5C, CHR ''f'']
      else if 0x20 \<le> (of_char c :: nat) \<and> (of_char c :: nat) \<le> 0x7E then [c]
      else [CHR 0x5C, CHR ''u'', CHR ''0'', CHR ''0'',
            hex_digit (of_char c div 16), hex_digit (of_char c mod 16)])"

definition encode_basestring_ascii :: "string \<Rightarrow> string" where
  "encode_basestring_ascii s = CHR 0x22 # concat (map escape_char s) @ [CHR 0x22]"

fun str_nat :: "nat \<Rightarrow> string" where
  "str_nat n =
     (if n < 10 then [char_of (48 + n)]
      else str_nat (n div 10) @ [char_of (48 + n mod 10)])"

definition str_int :: "int \<Rightarrow> string" where
  "str_int i = (if i < 0 then CHR ''-'' # str_nat (nat (- i)) else str_nat (nat i))"

fun join :: "string \<Rightarrow> string list \<Rightarrow> string" where
  "join sep [] = []"
| "join sep [x] = x"
| "join sep (x # y # ys) = x @ sep @ join sep (y # ys)"

text \<open>The item separator is \<open>", "\<close> and the key separator \<open>": "\<close>.\<close>

fun json_dumps :: "json \<Rightarrow> string" where
  "json_dumps JNull = ''null''"
| "json_dumps (JBool b) = (if b then ''true'' else ''false'')"
| "json_dumps (JInt i) = str_int i"
| "json_dumps (JFloat f) = f"
| "json_dumps (JStr s) = encode_basestring_ascii s"
| "json_dumps (JList xs) = ''['' @ join '', '' (map json_dumps xs) @ '']''"
| "json_dumps (JDict kvs) =
     ''{'' @ join '', '' (map (\<lambda>(k, v). encode_basestring_ascii k @ '': '' @ json_dumps v) kvs)
       @ ''}''"

subsection \<open>Decoding (\<open>json.loads\<close>)\<close>

definition is_digit :: "char \<Rightarrow> bool" where
  "is_digit c = (48 \<le> (of_char c :: nat) \<and> (of_char c :: nat) \<le> 57)"

definition digit_val :: "char \<Rightarrow> nat" where
  "digit_val c = of_char c - 48"

definition nat_of_digits :: "string \<Rightarrow> nat" where
  "nat_of_digits ds = foldl (\<lambda>a c. 10 * a + digit_val c) 0 ds"

definition int_of_str :: "string \<Rightarrow> int" where
  "int_of_str s =
     (case s of
        [] \<Rightarrow> 0
      | c # cs \<Rightarrow> if c = CHR ''-'' then - int (nat_of_digits cs) else int (nat_of_digits s))"

definition hex_val :: "char \<Rightarrow> nat option" where
  "hex_val c =
     (let n = (of_char c :: nat) in
      if 48 \<le> n \<and> n \<le> 57 then Some (n - 48)
      else if 97 \<le> n \<and> n \<le> 102 then Some (n - 87)
      else if 65 \<le> n \<and> n \<le> 70 then Some (n - 55)
      else None)"

definition decode_uXXXX :: "char \<Rightarrow> char \<Rightarrow> char \<Rightarrow> char \<Rightarrow> nat option" where
  "decode_uXXXX a b c d =
     (case (hex_val a, hex_val b, hex_val c, hex_val d) of
        (Some w, Some x, Some y, Some z) \<Rightarrow> Some (((w * 16 + x) * 16 + y) * 16 + z)
      | _ \<Rightarrow> None)"

text \<open>The table \<open>BACKSLASH\<close> of the decoder.\<close>

definition backslash :: "char \<Rightarrow> char option" where
  "backslash e =
     (if e = CHR 0x22 then Some (CHR 0x22)
      else if e = CHR 0x5C then Some (CHR 0x5C)
      else if e = CHR ''/'' then Some (CHR ''/'')
      else if e = CHR ''b'' then Some (CHR 0x08)
      else if e = CHR ''f'' then Some (CHR 0x0C)
      else if e = CHR ''n'' then Some (CHR 0x0A)
      else if e = CHR ''r'' then Some (CHR 0x0D)
      else if e = CHR ''t'' then Some (CHR 0x09)
      else None)"

definition prepend :: "char \<Rightarrow> (string \<times> string) option \<Rightarrow> (string \<times> string) option" where
  "prepend c r = (case r of None \<Rightarrow> None | Some (s, rest) \<Rightarrow> Some (c # s, rest))"

text \<open>
  \<open>scanstring\<close> in strict mode, started after the opening quote: it returns the decoded
  string and the text after the closing quote, and \<open>None\<close> where Python raises
  \<open>JSONDecodeError\<close>. An escape \<open>\uXXXX\<close> above \<open>00ff\<close> denotes a character that the
  strings of this model do not have; it is reported as \<open>None\<close>.
\<close>

fun scanstring :: "string \<Rightarrow> (string \<times> string) option" where
  "scanstring [] = None"
| "scanstring (c # cs) =
     (if c = CHR 0x22 then Some ([], cs)
      else if c = CHR 0x5C then
        (case cs of
           [] \<Rightarrow> None
         | e # r \<Rightarrow>
             if e = CHR ''u'' then
               (case r of
                  h1 # h2 # h3 # h4 # r' \<Rightarrow>
                    (case decode_uXXXX h1 h2 h3 h4 of
                       None \<Rightarrow> None
                     | Some uni \<Rightarrow>
                         if uni < 256 then prepend (char_of uni) (scanstring r') else None)
                | _ \<Rightarrow> None)
             else
               (case backslash e of
                  None \<Rightarrow> None
                | Some ch \<Rightarrow> prepend ch (scanstring r)))
      else if (of_char c :: nat) < 0x20 then None
      else prepend c (scanstring cs))"

text \<open>\<open>WHITESPACE = [ \t\n\r]*\<close>\<close>

definition is_ws :: "char \<Rightarrow> bool" where
  "is_ws c = (c = CHR '' '' \<or> c = CHR 0x09 \<or> c = CHR 0x0A \<or> c = CHR 0x0D)"

definition skip_ws :: "string \<Rightarrow> string" where
  "skip_ws s = dropWhile is_ws s"

text \<open>
  \<open>NUMBER_RE = (-?(?:0|[1-9]\d*))(\.\d+)?([eE][-+]?\d+)?\<close>, one function for each of
  its three groups. Each returns the text the group matched and the text after it.
\<close>

definition match_integer :: "string \<Rightarrow> (string \<times> string) option" where
  "match_integer s =
     (let (sign, s1) =
            (case s of
               [] \<Rightarrow> ([], s)
             | c # cs \<Rightarrow> if c = CHR ''-'' then ([c], cs) else ([], s)) in
      case s1 of
        [] \<Rightarrow> None
      | d # ds \<Rightarrow>
          if d = CHR ''0'' then Some (sign @ [d], ds)
          else if is_digit d then Some (sign @ d # takeWhile is_digit ds, dropWhile is_digit ds)
          else None)"

definition match_frac :: "string \<Rightarrow> string \<times> string" where
  "match_frac s =
     (case s of
        c # d # ds \<Rightarrow>
          if c = CHR ''.'' \<and> is_digit d
          then (c # d # takeWhile is_digit ds, dropWhile is_digit ds)
          else ([], s)
      | _ \<Rightarrow> ([], s))"

definition match_exp :: "string \<Rightarrow> string \<times> string" where
  "match_exp s =
     (case s of
        [] \<Rightarrow> ([], s)
      | e # t \<Rightarrow>
          if e = CHR ''e'' \<or> e = CHR ''E'' then
            (case t of
               [] \<Rightarrow> ([], s)
             | g # u \<Rightarrow>
                 if g = CHR ''+'' \<or> g = CHR ''-'' then
                   (case u of
                      [] \<Rightarrow> ([], s)
                    | d # ds \<Rightarrow>
                        if is_digit d
                        then (e # g # d # takeWhile is_digit ds, dropWhile is_digit ds)
                        else ([], s))
                 else if is_digit g then (e # g # takeWhile is_digit u, dropWhile is_digit u)
                 else ([], s))
          else ([], s))"

definition match_number :: "string \<Rightarrow> (json \<times> string) option" where
  "match_number s =
     (case match_integer s of
        None \<Rightarrow> None
      | Some (integer, r1) \<Rightarrow>
          (let (frac, r2) = match_frac r1; (exp, r3) = match_exp r2 in
           if frac \<noteq> [] \<or> exp \<noteq> [] then Some (JFloat (integer @ frac @ exp), r3)
           else Some (JInt (int_of_str integer), r3)))"

text \<open>
  \<open>dict(pairs)\<close>: a key that occurs again keeps its place and takes the later value.
\<close>

fun dict_update :: "string \<Rightarrow> json \<Rightarrow> (string \<times> json) list \<Rightarrow> (string \<times> json) list" where
  "dict_update k v [] = [(k, v)]"
| "dict_update k v ((k', v') # d) =
     (if k = k' then (k, v) # d else (k', v') # dict_update k v d)"

definition dict_of_pairs :: "(string \<times> json) list \<Rightarrow> (string \<times> json) list" where
  "dict_of_pairs ps = foldl (\<lambda>d (k, v). dict_update k v d) [] ps"

text \<open>
  The scanner: \<open>parse_value\<close> is \<open>scan_once\<close> with \<open>JSONArray\<close> and \<open>JSONObject\<close>
  up to their first item; \<open>parse_elems\<close> and \<open>parse_members\<close> are their loops, started
  at an item and at the text after a key's opening quote. The first argument bounds the
  number of nested calls; \<open>json_decode\<close> passes one more than the length of the
  text, which is as good as any bound (\<open>json_decode_enough\<close> below). \<open>None\<close> is
  \<open>JSONDecodeError\<close>.
\<close>

fun parse_value :: "nat \<Rightarrow> string \<Rightarrow> (json \<times> string) option"
  and parse_elems :: "nat \<Rightarrow> string \<Rightarrow> (json list \<times> string) option"
  and parse_members :: "nat \<Rightarrow> string \<Rightarrow> ((string \<times> json) list \<times> string) option" where
  "parse_value 0 s = None"
| "parse_value (Suc n) [] = None"
| "parse_value (Suc n) (c # cs) =
     (if c = CHR 0x22 then
        (case scanstring cs of None \<Rightarrow> None | Some (str, r) \<Rightarrow> Some (JStr str, r))
      else if c = CHR ''{'' then
        (case skip_ws cs of
           [] \<Rightarrow> None
         | d # r \<Rightarrow>
             if d = CHR ''}'' then Some (JDict [], r)
             else if d = CHR 0x22 then
               (case parse_members n r of
                  None \<Rightarrow> None
                | Some (pairs, r') \<Rightarrow> Some (JDict (dict_of_pairs pairs), r'))
             else None)
      else if c = CHR ''['' then
        (case skip_ws cs of
           [] \<Rightarrow> None
         | d # r \<Rightarrow>
             if d = CHR '']'' then Some (JList [], r)
             else
               (case parse_elems n (d # r) of
                  None \<Rightarrow> None
                | Some (values, r') \<Rightarrow> Some (JList values, r')))
      else if c = CHR ''n'' \<and> take 3 cs = ''ull'' then Some (JNull, drop 3 cs)
      else if c = CHR ''t'' \<and> take 3 cs = ''rue'' then Some (JBool True, drop 3 cs)
      else if c = CHR ''f'' \<and> take 4 cs = ''alse'' then Some (JBool False, drop 4 cs)
      else
        (case match_number (c # cs) of
           Some res \<Rightarrow> Some res
         | None \<Rightarrow>
             if c = CHR ''N'' \<and> take 2 cs = ''aN'' then Some (JFloat ''NaN'', drop 2 cs)
             else if c = CHR ''I'' \<and> take 7 cs = ''nfinity''
             then Some (JFloat ''Infinity'', drop 7 cs)
             else if c = CHR ''-'' \<and> take 8 cs = ''Infinity''
             then Some (JFloat ''-Infinity'', drop 8 cs)
             else None))"
| "parse_elems 0 s = None"
| "parse_elems (Suc n) s =
     (case parse_value n s of
        None \<Rightarrow> None
      | Some (v, r) \<Rightarrow>
          (case skip_ws r of
             [] \<Rightarrow> None
           | d # r' \<Rightarrow>
               if d = CHR '']'' then Some ([v], r')
               else if d = CHR '','' then
                 (case parse_elems n (skip_ws r') of
                    None \<Rightarrow> None
                  | Some (vs, r'') \<Rightarrow> Some (v # vs, r''))
               else None))"
| "parse_members 0 s = None"
| "parse_members (Suc n) s =
     (case scanstring s of
        None \<Rightarrow> None
      | Some (key, r) \<Rightarrow>
          (case skip_ws r of
             [] \<Rightarrow> None
           | c # r1 \<Rightarrow>
               if c \<noteq> CHR '':'' then None
               else
                 (case parse_value n (skip_ws r1) of
                    None \<Rightarrow> None
                  | Some (v, r2) \<Rightarrow>
                      (case skip_ws r2 of
                         [] \<Rightarrow> None
                       | d # r3 \<Rightarrow>
                           if d = CHR ''}'' then Some ([(key, v)], r3)
                           else if d = CHR '','' then
                             (case skip_ws r3 of
                                [] \<Rightarrow> None
                              | q # r4 \<Rightarrow>
                                  if q = CHR 0x22 then
                                    (case parse_members n r4 of
                                       None \<Rightarrow> None
                                     | Some (ps, r5) \<Rightarrow> Some ((key, v) # ps, r5))
                                  else None)
                           else None))))"


text \<open>
  \<open>json.loads\<close>: leading whitespace, one value, trailing whitespace, and nothing else
  (\<open>Extra data\<close> otherwise).
\<close>

definition json_decode :: "string \<Rightarrow> json option" where
  "json_decode s =
     (case parse_value (Suc (length s)) (skip_ws s) of
        None \<Rightarrow> None
      | Some (obj, r) \<Rightarrow> if skip_ws r = [] then Some obj else None)"

section \<open>Exceptions\<close>

text \<open>
  The exceptions the modelled code can meet, each with the text \<open>str(e)\<close> gives. The
  text of a \<open>JSONDecodeError\<close> (which names the position of the fault) is not modelled:
  \<open>json_loads\<close> reports one fixed message.
\<close>

datatype exn =
    RedisError string
  | AMQPError string
  | JSONDecodeError string
  | AttributeError string
  | ValueError string

fun str_exn :: "exn \<Rightarrow> string" where
  "str_exn (RedisError m) = m"
| "str_exn (AMQPError m) = m"
| "str_exn (JSONDecodeError m) = m"
| "str_exn (AttributeError m) = m"
| "str_exn (ValueError m) = m"

definition json_loads :: "string \<Rightarrow> exn + json" where
  "json_loads s =
     (case json_decode s of
        None \<Rightarrow> Inl (JSONDecodeError ''Expecting value'')
      | Some obj \<Rightarrow> Inr obj)"

text \<open>\<open>d.get(key, default)\<close>; a value that is not a \<open>dict\<close> has no such method.\<close>

definition dict_get :: "json \<Rightarrow> string \<Rightarrow> json \<Rightarrow> exn + json" where
  "dict_get d key dflt =
     (case d of
        JDict items \<Rightarrow> (case map_of items key of None \<Rightarrow> Inr dflt | Some v \<Rightarrow> Inr v)
      | _ \<Rightarrow> Inl (AttributeError ''object has no attribute 'get' ''))"

section \<open>Settings (\<open>settings.py\<close>)\<close>

text \<open>
  \<open>TASK_TTL\<close> and \<open>TEXT_GENERATION_QUEUE\<close> are read from the process environment when
  the module is loaded, so they are fields of a record; the other settings used here are
  constants of the class.
\<close>

record settings =
  TASK_TTL :: int
  TEXT_GENERATION_QUEUE :: string

definition default_settings :: settings where
  "default_settings = \<lparr>TASK_TTL = 3600, TEXT_GENERATION_QUEUE = ''text_generation_tasks''\<rparr>"

definition TASK_PREFIX :: string where
  "TASK_PREFIX = ''task:''"

definition STATUS_PENDING :: string where
  "STATUS_PENDING = ''PENDING''"

definition STATUS_PROCESSING :: string where
  "STATUS_PROCESSING = ''PROCESSING''"

definition STATUS_COMPLETED :: string where
  "STATUS_COMPLETED = ''COMPLETED''"

definition STATUS_FAILED :: string where
  "STATUS_FAILED = ''FAILED''"

definition get_task_key :: "string \<Rightarrow> string" where
  "get_task_key task_id = TASK_PREFIX @ task_id"

section \<open>The Redis store, the RabbitMQ queue and the commands sent to them\<close>

text \<open>
  The store maps a key to its value and the instant at which it expires, read on the
  server's own clock. A command that the server or the connection fails raises the
  exception given as \<open>fault\<close> and leaves the store as it was.
\<close>

record redis =
  entries :: "string \<rightharpoonup> (string \<times> nat)"
  clock :: nat

definition redis_setex :: "exn option \<Rightarrow> string \<Rightarrow> int \<Rightarrow> string \<Rightarrow> redis \<Rightarrow> exn + redis" where
  "redis_setex fault key ttl v r =
     (case fault of
        Some e \<Rightarrow> Inl e
      | None \<Rightarrow>
          if ttl \<le> 0 then Inl (RedisError ''invalid expire time in 'setex' command'')
          else Inr (r\<lparr>entries := (entries r)(key \<mapsto> (v, clock r + nat ttl))\<rparr>))"

definition redis_get :: "exn option \<Rightarrow> string \<Rightarrow> redis \<Rightarrow> exn + string option" where
  "redis_get fault key r =
     (case fault of
        Some e \<Rightarrow> Inl e
      | None \<Rightarrow>
          (case entries r key of
             None \<Rightarrow> Inr None
           | Some (v, expires) \<Rightarrow> if clock r < expires then Inr (Some v) else Inr None))"

record message =
  routing_key :: string
  body :: string
  delivery_mode :: nat
  content_type :: string
  message_id :: string

datatype command =
    Setex string int string
  | Get string
  | Publish message
  | Sleep real

text \<open>
  What the process acts on: the store, the messages published to the queue (oldest
  first), and the commands the process itself has issued, in order.
\<close>

record world =
  store :: redis
  queue :: "message list"
  sent :: "command list"

definition issue :: "command \<Rightarrow> world \<Rightarrow> world" where
  "issue c w = w\<lparr>sent := sent w @ [c]\<rparr>"

definition basic_publish :: "exn option \<Rightarrow> message \<Rightarrow> world \<Rightarrow> (exn + unit) \<times> world" where
  "basic_publish fault m w =
     (case fault of
        Some e \<Rightarrow> (Inl e, issue (Publish m) w)
      | None \<Rightarrow> (Inr (), issue (Publish m) (w\<lparr>queue := queue w @ [m]\<rparr>)))"

definition setex :: "exn option \<Rightarrow> string \<Rightarrow> int \<Rightarrow> string \<Rightarrow> world \<Rightarrow> (exn + unit) \<times> world" where
  "setex fault key ttl v w =
     (case redis_setex fault key ttl v (store w) of
        Inl e \<Rightarrow> (Inl e, issue (Setex key ttl v) w)
      | Inr r \<Rightarrow> (Inr (), issue (Setex key ttl v) (w\<lparr>store := r\<rparr>)))"

section \<open>The producer (\<open>api_server.py\<close>)\<close>

text \<open>
  \<open>uuid\<close> is what \<open>str(uuid.uuid4())\<close> returned and \<open>now\<close> what \<open>time.time()\<close> returned;
  \<open>setex_fault\<close> and \<open>publish_fault\<close> say whether the two commands fail. Output printed
  to the terminal is not modelled.
\<close>

definition task_payload :: "string \<Rightarrow> string \<Rightarrow> (string \<times> json) list option \<Rightarrow> string \<Rightarrow> json" where
  "task_payload task_id prompt metadata now =
     JDict [(''task_id'', JStr task_id),
            (''prompt'', JStr prompt),
            (''metadata'', JDict (case metadata of None \<Rightarrow> [] | Some m \<Rightarrow> if m = [] then [] else m)),
            (''created_at'', JFloat now),
            (''status'', JStr STATUS_PENDING)]"

definition create_task ::
  "settings \<Rightarrow> string \<Rightarrow> string \<Rightarrow> exn option \<Rightarrow> exn option \<Rightarrow>
   string \<Rightarrow> (string \<times> json) list option \<Rightarrow> world \<Rightarrow> (exn + string) \<times> world" where
  "create_task cfg uuid now setex_fault publish_fault prompt metadata w =
     (let task_id = uuid;
          payload = task_payload task_id prompt metadata now;
          redis_key = get_task_key task_id in
      case setex setex_fault redis_key (TASK_TTL cfg) (json_dumps payload) w of
        (Inl e, w1) \<Rightarrow> (Inl e, w1)
      | (Inr _, w1) \<Rightarrow>
          (case basic_publish publish_fault
                  \<lparr>routing_key = TEXT_GENERATION_QUEUE cfg,
                   body = json_dumps payload,
                   delivery_mode = 2,
                   content_type = ''application/json'',
                   message_id = task_id\<rparr> w1 of
             (Inl e, w2) \<Rightarrow> (Inl e, w2)
           | (Inr _, w2) \<Rightarrow> (Inr task_id, w2)))"

definition not_found :: "string \<Rightarrow> json" where
  "not_found task_id =
     JDict [(''task_id'', JStr task_id),
            (''status'', JStr ''NOT_FOUND''),
            (''error'', JStr ''Task not found or expired'')]"

definition error_status :: "string \<Rightarrow> exn \<Rightarrow> json" where
  "error_status task_id e =
     JDict [(''task_id'', JStr task_id),
            (''status'', JStr ''ERROR''),
            (''error'', JStr (str_exn e))]"

text \<open>
  The body of the \<open>try\<close> block of \<open>get_task_status\<close>, and the method with its handler.
  \<open>not task_data\<close> holds for \<open>None\<close> and for the empty string. The handler prints a line
  before it returns the \<open>ERROR\<close> record (line 139), and \<open>print\<close> raises when the
  terminal refuses the line (a closed stream, a character its encoding does not have):
  \<open>print_fault\<close> says whether it does. An exception raised in the handler leaves the
  method.
\<close>

definition get_task_status_body :: "exn option \<Rightarrow> string \<Rightarrow> world \<Rightarrow> exn + json" where
  "get_task_status_body fault task_id w =
     (let redis_key = get_task_key task_id in
      case redis_get fault redis_key (store w) of
        Inl e \<Rightarrow> Inl e
      | Inr task_data \<Rightarrow>
          (case task_data of
             None \<Rightarrow> Inr (not_found task_id)
           | Some text \<Rightarrow> if text = [] then Inr (not_found task_id) else json_loads text))"

definition print_line :: "exn option \<Rightarrow> exn + unit" where
  "print_line print_fault = (case print_fault of Some e \<Rightarrow> Inl e | None \<Rightarrow> Inr ())"

definition get_task_status ::
  "exn option \<Rightarrow> exn option \<Rightarrow> string \<Rightarrow> world \<Rightarrow> (exn + json) \<times> world" where
  "get_task_status print_fault fault task_id w =
     (case get_task_status_body fault task_id w of
        Inl e \<Rightarrow>
          (case print_line print_fault of
             Inl e' \<Rightarrow> (Inl e', issue (Get (get_task_key task_id)) w)
           | Inr _ \<Rightarrow> (Inr (error_status task_id e), issue (Get (get_task_key task_id)) w))
      | Inr task_data \<Rightarrow> (Inr task_data, issue (Get (get_task_key task_id)) w))"

section \<open>The client (\<open>client_test.py\<close>)\<close>

text \<open>
  \<open>time.sleep\<close> raises \<open>ValueError\<close> on a negative length. While the client sleeps the
  other processes (the workers, the store's clock) act on the store: \<open>others\<close>. The
  client reports its progress on the terminal at every step; it is modelled on a terminal
  that accepts what is printed, so its calls of \<open>get_task_status\<close> are made with no
  \<open>print_fault\<close>.
\<close>

definition sleep :: "real \<Rightarrow> (redis \<Rightarrow> redis) \<Rightarrow> world \<Rightarrow> (exn + unit) \<times> world" where
  "sleep secs others w =
     (if secs < 0 then (Inl (ValueError ''sleep length must be non-negative''), w)
      else (Inr (), issue (Sleep secs) (w\<lparr>store := others (store w)\<rparr>)))"

text \<open>
  The loop \<open>for attempt in range(1, max_attempts + 1)\<close> of \<open>poll_result\<close>, from
  \<open>attempt\<close> on. \<open>faults attempt\<close> says whether the read of that attempt fails and
  \<open>others attempt\<close> what the other processes do during the sleep after it. The result is
  \<open>Inr None\<close> where the method returns \<open>None\<close>.
\<close>

function poll_loop ::
  "(int \<Rightarrow> exn option) \<Rightarrow> (int \<Rightarrow> redis \<Rightarrow> redis) \<Rightarrow> string \<Rightarrow> real \<Rightarrow> int \<Rightarrow> int \<Rightarrow>
   world \<Rightarrow> (exn + json option) \<times> world" where
  "poll_loop faults others task_id poll_interval max_attempts attempt w =
     (if max_attempts < attempt then (Inr None, w)
      else
        (case get_task_status None (faults attempt) task_id w of
           (Inl e, w1) \<Rightarrow> (Inl e, w1)
         | (Inr task_data, w1) \<Rightarrow>
             (case dict_get task_data ''status'' (JStr ''UNKNOWN'') of
                Inl e \<Rightarrow> (Inl e, w1)
              | Inr status \<Rightarrow>
                  if status = JStr STATUS_COMPLETED then (Inr (Some task_data), w1)
                  else if status = JStr STATUS_FAILED then (Inr (Some task_data), w1)
                  else if status \<in> set [JStr ''NOT_FOUND'', JStr ''ERROR''] then (Inr None, w1)
                  else
                    (case sleep poll_interval (others attempt) w1 of
                       (Inl e, w2) \<Rightarrow> (Inl e, w2)
                     | (Inr _, w2) \<Rightarrow>
                         poll_loop faults others task_id poll_interval max_attempts
                           (attempt + 1) w2))))"
  by pat_completeness auto
termination
  by (relation "measure (\<lambda>(faults, others, task_id, poll_interval, max_attempts, attempt, w).
        nat (max_attempts + 1 - attempt))") auto

definition poll_result ::
  "(int \<Rightarrow> exn option) \<Rightarrow> (int \<Rightarrow> redis \<Rightarrow> redis) \<Rightarrow> string \<Rightarrow> real \<Rightarrow> int \<Rightarrow>
   world \<Rightarrow> (exn + json option) \<times> world" where
  "poll_result faults others task_id poll_interval max_attempts w =
     poll_loop faults others task_id poll_interval max_attempts 1 w"



section \<open>Well-formed values\<close>

text \<open>
  The values Python can hold: the keys of a \<open>dict\<close> are distinct, and the text of a
  \<open>float\<close> is one that the number pattern reads back, whole, as a float (it has a
  fraction or an exponent; \<open>NaN\<close> and the infinities are not covered).
\<close>

fun wf_json :: "json \<Rightarrow> bool" where
  "wf_json (JFloat f) = (match_number f = Some (JFloat f, []))"
| "wf_json (JList xs) = list_all wf_json xs"
| "wf_json (JDict kvs) = (distinct (map fst kvs) \<and> list_all (\<lambda>(k, v). wf_json v) kvs)"
| "wf_json v = True"

text \<open>What follows a value inside a serialised text: nothing, a comma or a closing bracket.\<close>

definition delim :: "string \<Rightarrow> bool" where
  "delim r = (case r of [] \<Rightarrow> True | c # _ \<Rightarrow> c = CHR '','' \<or> c = CHR '']'' \<or> c = CHR ''}'')"

text \<open>A text whose first character is neither whitespace, a comma nor a closing bracket.\<close>

definition starts_value :: "string \<Rightarrow> bool" where
  "starts_value s =
     (case s of
        [] \<Rightarrow> False
      | c # _ \<Rightarrow> \<not> is_ws c \<and> c \<noteq> CHR '']'' \<and> c \<noteq> CHR ''}'' \<and> c \<noteq> CHR '','')"

text \<open>One item of a serialised \<open>dict\<close>.\<close>

abbreviation (input) item :: "string \<times> json \<Rightarrow> string" where
  "item \<equiv> (\<lambda>(k, v). encode_basestring_ascii k @ '': '' @ json_dumps v)"

section \<open>Runs and observations\<close>

text \<open>A world in which nothing has happened yet.\<close>

definition init_world :: world where
  "init_world = \<lparr>store = \<lparr>entries = Map.empty, clock = 0\<rparr>, queue = [], sent = []\<rparr>"

text \<open>The commands that write nothing: a read of the store and a sleep.\<close>

fun is_read_or_sleep :: "command \<Rightarrow> bool" where
  "is_read_or_sleep (Get k) = True"
| "is_read_or_sleep (Sleep d) = True"
| "is_read_or_sleep (Setex k t v) = False"
| "is_read_or_sleep (Publish m) = False"

text \<open>
  The status a client reads for a task in a given store: the \<open>status\<close> entry of what
  \<open>get_task_status\<close> returns, \<open>UNKNOWN\<close> when the entry is missing (line 62 of
  \<open>client_test.py\<close>).
\<close>

definition observed_status :: "exn option \<Rightarrow> string \<Rightarrow> redis \<Rightarrow> exn + json" where
  "observed_status fault task_id r =
     (case fst (get_task_status None fault task_id \<lparr>store = r, queue = [], sent = []\<rparr>) of
        Inl e \<Rightarrow> Inl e
      | Inr task_data \<Rightarrow> dict_get task_data ''status'' (JStr ''UNKNOWN''))"

text \<open>An environment in which no read fails, and one in which no other process acts.\<close>

definition no_faults :: "int \<Rightarrow> exn option" where
  "no_faults k = None"

definition alone :: "int \<Rightarrow> redis \<Rightarrow> redis" where
  "alone k r = r"

text \<open>
  A record as it stands when the work is done, and another process whose write of that
  record, for task \<open>t\<close>, lands while the client sleeps.
\<close>

definition completed_example :: json where
  "completed_example =
     JDict [(''task_id'', JStr ''t''), (''status'', JStr ''COMPLETED''), (''result'', JStr ''done'')]"

definition late_writer :: "int \<Rightarrow> redis \<Rightarrow> redis" where
  "late_writer k r =
     r\<lparr>entries := (entries r)(get_task_key ''t'' \<mapsto> (json_dumps completed_example, clock r + 3600))\<rparr>"

text \<open>A terminal that refuses what is printed.\<close>

definition closed_terminal :: exn where
  "closed_terminal = ValueError ''I/O operation on closed file.''"

text \<open>A \<open>dict\<close> with the keys \<open>task_id\<close> and \<open>status\<close>.\<close>

definition has_task_id_and_status :: "json \<Rightarrow> bool" where
  "has_task_id_and_status d =
     (case d of
        JDict items \<Rightarrow> map_of items ''task_id'' \<noteq> None \<and> map_of items ''status'' \<noteq> None
      | _ \<Rightarrow> False)"

text \<open>A store in which the key of task \<open>t\<close> holds the text of an empty JSON object.\<close>

definition stray_world :: world where
  "stray_world =
     \<lparr>store = \<lparr>entries = [get_task_key ''t'' \<mapsto> (''{}'', 3600)], clock = 0\<rparr>,
      queue = [], sent = []\<rparr>"






section \<open>The transitions a worker reports\<close>

text \<open>
  The worker (\<open>text_worker.py\<close>) is not among the sources; its three transitions are
  modelled from the spec. The store is seen here as the records it holds, by task id, a
  record being the items of its \<open>dict\<close>.
\<close>

type_synonym records = "string \<rightharpoonup> (string \<times> json) list"

text \<open>\<open>del d[k]\<close> where the key is present, and nothing where it is not.\<close>

definition dict_remove :: "string \<Rightarrow> (string \<times> json) list \<Rightarrow> (string \<times> json) list" where
  "dict_remove k d = filter (\<lambda>(k', v). k' \<noteq> k) d"

text \<open>
  Modelled from the spec: \<open>mark_processing\<close> of the absent worker. The spec (4.1): it is
  called by a worker that has claimed the task and transitions \<open>PENDING\<close> to
  \<open>PROCESSING\<close>; on a missing record it is a no-op success. The only transition into
  \<open>PROCESSING\<close> is the one from \<open>PENDING\<close> (4.2), a status never moves backwards (3), and
  an attempt on a record that is already terminal is accepted and idempotent (4.2): so on
  a record whose status is not \<open>PENDING\<close> the call succeeds and leaves the record as it
  is. A transition is a read, a change and a re-write of the whole record.
\<close>

definition mark_processing :: "string \<Rightarrow> records \<Rightarrow> records" where
  "mark_processing task_id s =
     (case s task_id of
        None \<Rightarrow> s
      | Some items \<Rightarrow>
          if map_of items ''status'' = Some (JStr STATUS_PENDING)
          then s(task_id \<mapsto> dict_update ''status'' (JStr STATUS_PROCESSING) items)
          else s)"

text \<open>
  Modelled from the spec: \<open>mark_completed\<close> of the absent worker. The spec (4.1): it sets
  the terminal status, \<open>completed_at\<close> and the result, and re-writes the whole record;
  on a missing record it is a no-op. On a record that is already terminal the call is
  accepted as an overwrite, the last writer winning (4.2). The record written has no
  \<open>error\<close>: \<open>result\<close> and \<open>error\<close> are mutually exclusive (3), and a field that does not
  apply is omitted (6).
\<close>

definition mark_completed :: "string \<Rightarrow> string \<Rightarrow> string \<Rightarrow> records \<Rightarrow> records" where
  "mark_completed task_id result now s =
     (case s task_id of
        None \<Rightarrow> s
      | Some items \<Rightarrow>
          s(task_id \<mapsto>
            dict_update ''result'' (JStr result)
              (dict_update ''completed_at'' (JFloat now)
                (dict_update ''status'' (JStr STATUS_COMPLETED)
                  (dict_remove ''error'' items)))))"

text \<open>
  Modelled from the spec: \<open>mark_failed\<close> of the absent worker. The spec (4.1): it sets the
  terminal status, \<open>completed_at\<close> and the error, and re-writes the whole record; on a
  missing record it is a no-op. On a record that is already terminal the call is accepted
  as an overwrite, the last writer winning (4.2). The record written has no \<open>result\<close>:
  \<open>result\<close> and \<open>error\<close> are mutually exclusive (3), and a field that does not apply is
  omitted (6).
\<close>

definition mark_failed :: "string \<Rightarrow> string \<Rightarrow> string \<Rightarrow> records \<Rightarrow> records" where
  "mark_failed task_id err now s =
     (case s task_id of
        None \<Rightarrow> s
      | Some items \<Rightarrow>
          s(task_id \<mapsto>
            dict_update ''error'' (JStr err)
              (dict_update ''completed_at'' (JFloat now)
                (dict_update ''status'' (JStr STATUS_FAILED)
                  (dict_remove ''result'' items)))))"

text \<open>A sequence of calls, on any task ids, applied in order.\<close>

datatype mark =
    MarkProcessing string
  | MarkCompleted string string string
  | MarkFailed string string string

fun apply_mark :: "records \<Rightarrow> mark \<Rightarrow> records" where
  "apply_mark s (MarkProcessing task_id) = mark_processing task_id s"
| "apply_mark s (MarkCompleted task_id result now) = mark_completed task_id result now s"
| "apply_mark s (MarkFailed task_id err now) = mark_failed task_id err now s"

definition apply_marks :: "mark list \<Rightarrow> records \<Rightarrow> records" where
  "apply_marks ms s = foldl apply_mark s ms"

text \<open>The status of a task's record, if the record is there, and the terminal statuses.\<close>

definition status_in :: "records \<Rightarrow> string \<Rightarrow> json option" where
  "status_in s task_id = (case s task_id of None \<Rightarrow> None | Some items \<Rightarrow> map_of items ''status'')"

definition terminal :: "json option \<Rightarrow> bool" where
  "terminal st = (st = Some (JStr STATUS_COMPLETED) \<or> st = Some (JStr STATUS_FAILED))"

text \<open>
  How far along \<open>PENDING\<close>, \<open>PROCESSING\<close>, \<open>COMPLETED\<close> or \<open>FAILED\<close> a status is; a
  record that is absent, or whose status is none of the four, has no position.
\<close>

definition progress :: "json option \<Rightarrow> nat option" where
  "progress st =
     (if st = Some (JStr STATUS_PENDING) then Some 0
      else if st = Some (JStr STATUS_PROCESSING) then Some 1
      else if st = Some (JStr STATUS_COMPLETED) \<or> st = Some (JStr STATUS_FAILED) then Some 2
      else None)"

text \<open>A store that holds one record, completed, and one that holds a record just created.\<close>

definition done_records :: records where
  "done_records =
     [''t'' \<mapsto> [(''task_id'', JStr ''t''), (''status'', JStr ''COMPLETED''), (''result'', JStr ''done'')]]"

definition new_records :: records where
  "new_records = [''t'' \<mapsto> [(''task_id'', JStr ''t''), (''status'', JStr ''PENDING'')]]"

section \<open>Properties\<close>

declare poll_loop.simps [simp del]

subsection \<open>Creation: the two writes and their failures\<close>

text \<open>
  Claim C1. If the write to the store fails, \<open>create_task\<close> raises that failure and
  has issued nothing but the \<open>SETEX\<close>: the store and the queue are as before and no
  message was published. If the write succeeds and the publish fails, \<open>create_task\<close>
  raises the failure of the publish instead of returning a task id; the queue is as
  before and the record stays in the store.
\<close>

theorem create_task_failures:
  fixes cfg uuid now prompt metadata w
  defines "key \<equiv> get_task_key uuid"
    and "text \<equiv> json_dumps (task_payload uuid prompt metadata now)"
  shows "(fst (setex setex_fault key (TASK_TTL cfg) text w) = Inl e \<longrightarrow>
           create_task cfg uuid now setex_fault publish_fault prompt metadata w
             = (Inl e, issue (Setex key (TASK_TTL cfg) text) w))
       \<and> (fst (setex setex_fault key (TASK_TTL cfg) text w) = Inr () \<and> publish_fault = Some e \<longrightarrow>
           fst (create_task cfg uuid now setex_fault publish_fault prompt metadata w) = Inl e
         \<and> queue (snd (create_task cfg uuid now setex_fault publish_fault prompt metadata w)) = queue w
         \<and> redis_get None key
              (store (snd (create_task cfg uuid now setex_fault publish_fault prompt metadata w)))
             = Inr (Some text))"
  unfolding key_def text_def
  by (auto simp: create_task_def setex_def redis_setex_def redis_get_def basic_publish_def
      issue_def Let_def split: option.splits if_splits)

theorem create_task_failures_witness:
  "create_task default_settings ''u1'' ''1.5'' (Some (RedisError ''down'')) None ''x'' None init_world
     = (Inl (RedisError ''down''),
        issue (Setex (get_task_key ''u1'') 3600 (json_dumps (task_payload ''u1'' ''x'' None ''1.5'')))
          init_world)
   \<and> fst (create_task default_settings ''u1'' ''1.5'' None (Some (AMQPError ''closed'')) ''x'' None
          init_world)
     = Inl (AMQPError ''closed'')"
proof -
  have a: "fst (setex (Some (RedisError ''down'')) (get_task_key ''u1'') (TASK_TTL default_settings)
             (json_dumps (task_payload ''u1'' ''x'' None ''1.5'')) init_world)
           = Inl (RedisError ''down'')"
    by (simp add: setex_def redis_setex_def)
  have b: "fst (setex None (get_task_key ''u1'') (TASK_TTL default_settings)
             (json_dumps (task_payload ''u1'' ''x'' None ''1.5'')) init_world) = Inr ()"
    by (simp add: setex_def redis_setex_def default_settings_def)
  from a b show ?thesis
    using create_task_failures [where setex_fault = "Some (RedisError ''down'')" and uuid = "''u1''"
            and cfg = default_settings and prompt = "''x''" and metadata = None and now = "''1.5''"
            and w = init_world and e = "RedisError ''down''" and publish_fault = None]
          create_task_failures [where setex_fault = None and uuid = "''u1''"
            and cfg = default_settings and prompt = "''x''" and metadata = None and now = "''1.5''"
            and w = init_world and e = "AMQPError ''closed''"
            and publish_fault = "Some (AMQPError ''closed'')"]
    by (simp add: default_settings_def)
qed

text \<open>
  Claim C7. When \<open>create_task\<close> returns a task id, it has appended exactly one message to
  the queue; the body of that message is the serialised payload of the task, and it is
  the very text that a read of the store returns for the task's key.
\<close>

theorem published_payload_is_stored_payload:
  assumes "fst (create_task cfg uuid now setex_fault publish_fault prompt metadata w) = Inr task_id"
  shows "queue (snd (create_task cfg uuid now setex_fault publish_fault prompt metadata w))
           = queue w @ [last (queue (snd (create_task cfg uuid now setex_fault publish_fault
                                            prompt metadata w)))]
       \<and> body (last (queue (snd (create_task cfg uuid now setex_fault publish_fault prompt metadata w))))
           = json_dumps (task_payload task_id prompt metadata now)
       \<and> message_id (last (queue (snd (create_task cfg uuid now setex_fault publish_fault
                                         prompt metadata w))))
           = task_id
       \<and> redis_get None (get_task_key task_id)
             (store (snd (create_task cfg uuid now setex_fault publish_fault prompt metadata w)))
           = Inr (Some (body (last (queue (snd (create_task cfg uuid now setex_fault publish_fault
                                                  prompt metadata w))))))"
  using assms
  by (auto simp: create_task_def setex_def redis_setex_def redis_get_def basic_publish_def
      issue_def Let_def split: option.splits if_splits)

theorem published_payload_is_stored_payload_witness:
  "fst (create_task default_settings ''u1'' ''1.5'' None None ''x'' None init_world) = Inr ''u1''
   \<and> redis_get None (get_task_key ''u1'')
        (store (snd (create_task default_settings ''u1'' ''1.5'' None None ''x'' None init_world)))
      = Inr (Some (body (last (queue (snd (create_task default_settings ''u1'' ''1.5'' None None
                                             ''x'' None init_world))))))"
proof -
  have a: "fst (create_task default_settings ''u1'' ''1.5'' None None ''x'' None init_world) = Inr ''u1''"
    by (simp add: create_task_def setex_def redis_setex_def basic_publish_def issue_def
        default_settings_def Let_def)
  from a show ?thesis
    using published_payload_is_stored_payload [OF a] by simp
qed

subsection \<open>Polling reads and writes nothing\<close>

lemma get_task_status_frame:
  "store (snd (get_task_status print_fault fault task_id w)) = store w"
  "queue (snd (get_task_status print_fault fault task_id w)) = queue w"
  "sent (snd (get_task_status print_fault fault task_id w)) = sent w @ [Get (get_task_key task_id)]"
  by (simp_all add: get_task_status_def issue_def split: sum.splits)

text \<open>
  A relation between worlds that every read and every sleep respects is respected by the
  whole loop.
\<close>

lemma poll_loop_invariant:
  assumes refl: "\<And>w. R w w"
    and trans: "\<And>a b c. R a b \<Longrightarrow> R b c \<Longrightarrow> R a c"
    and get: "\<And>k w. R w (snd (get_task_status None (faults k) task_id w))"
    and slp: "\<And>k w. R w (snd (sleep poll_interval (others k) w))"
  shows "R w (snd (poll_loop faults others task_id poll_interval max_attempts attempt w))"
  using assms
proof (induction faults others task_id poll_interval max_attempts attempt w rule: poll_loop.induct)
  case (1 faults others task_id poll_interval max_attempts attempt w)
  note get = 1(4) and slp = 1(5) and refl = 1(2) and trans = 1(3)
  show ?case
  proof (cases "max_attempts < attempt")
    case True
    then show ?thesis using refl by (simp add: poll_loop.simps)
  next
    case False
    obtain res w1 where g: "get_task_status None (faults attempt) task_id w = (res, w1)"
      by (cases "get_task_status None (faults attempt) task_id w")
    have w1: "R w w1"
      using get [of w attempt] g by simp
    obtain td where td: "res = Inr td"
      using g by (cases res) (auto simp: get_task_status_def print_line_def split: sum.splits)
    note g = g [unfolded td]
    show ?thesis
    proof (cases "dict_get td ''status'' (JStr ''UNKNOWN'')")
      case (Inl e)
      then show ?thesis using False g w1 by (simp add: poll_loop.simps)
    next
      case (Inr status)
      show ?thesis
      proof (cases "status = JStr STATUS_COMPLETED \<or> status = JStr STATUS_FAILED
                    \<or> status \<in> set [JStr ''NOT_FOUND'', JStr ''ERROR'']")
        case True
        then show ?thesis using False g w1 Inr by (auto simp add: poll_loop.simps)
      next
        case nt: False
        obtain x w2 where s: "sleep poll_interval (others attempt) w1 = (x, w2)"
          by (cases "sleep poll_interval (others attempt) w1")
        have w2: "R w w2"
          using slp [of w1 attempt] s w1 trans by auto
        show ?thesis
        proof (cases x)
          case (Inl e)
          then show ?thesis using False g Inr nt s w2 by (auto simp add: poll_loop.simps)
        next
          case r: (Inr u)
          have "R w2 (snd (poll_loop faults others task_id poll_interval max_attempts (attempt + 1) w2))"
            using nt
            by (intro 1(1) [OF False g [symmetric] HOL.refl Inr _ _ _ s [symmetric] r refl trans get slp]) auto
          then have "R w (snd (poll_loop faults others task_id poll_interval max_attempts (attempt + 1) w2))"
            using w2 trans by blast
          then show ?thesis
            using False g Inr nt s r
            by (subst poll_loop.simps) auto
        qed
      qed
    qed
  qed
qed

lemma poll_loop_frame:
  "store (snd (poll_loop faults (\<lambda>k r. r) task_id poll_interval max_attempts attempt w)) = store w
   \<and> queue (snd (poll_loop faults (\<lambda>k r. r) task_id poll_interval max_attempts attempt w)) = queue w"
  by (rule poll_loop_invariant [where R = "\<lambda>w w'. store w' = store w \<and> queue w' = queue w"])
     (auto simp: get_task_status_frame sleep_def issue_def)

lemma poll_loop_commands:
  "\<exists>cs. sent (snd (poll_loop faults others task_id poll_interval max_attempts attempt w)) = sent w @ cs
        \<and> list_all is_read_or_sleep cs"
proof (rule poll_loop_invariant
    [where R = "\<lambda>w w'. \<exists>cs. sent w' = sent w @ cs \<and> list_all is_read_or_sleep cs"])
  show "\<exists>cs. sent w = sent w @ cs \<and> list_all is_read_or_sleep cs" for w :: world
    by (rule exI [of _ "[]"]) simp
  show "\<exists>cs. sent c = sent a @ cs \<and> list_all is_read_or_sleep cs"
    if "\<exists>cs. sent b = sent a @ cs \<and> list_all is_read_or_sleep cs"
      and "\<exists>cs. sent c = sent b @ cs \<and> list_all is_read_or_sleep cs" for a b c :: world
    using that by (metis append.assoc list_all_append)
  show "\<exists>cs. sent (snd (get_task_status None (faults k) task_id w)) = sent w @ cs
          \<and> list_all is_read_or_sleep cs" for k w
    by (simp add: get_task_status_frame)
  show "\<exists>cs. sent (snd (sleep poll_interval (others k) w)) = sent w @ cs
          \<and> list_all is_read_or_sleep cs" for k w
    by (cases "poll_interval < 0") (simp_all add: sleep_def issue_def)
qed

text \<open>
  Claim C9. A status read leaves the store as it found it. When no other process acts,
  the store after \<open>poll_result\<close> is the store before it, whatever the task id, the
  number of attempts and the failures of the reads. Whatever the other processes do,
  \<open>poll_result\<close> publishes nothing, and every command it issues is a read or a sleep.
\<close>

theorem polling_is_read_only:
  "store (snd (get_task_status print_fault fault task_id w)) = store w
   \<and> store (snd (poll_result faults (\<lambda>k r. r) task_id poll_interval max_attempts w)) = store w
   \<and> queue (snd (poll_result faults others task_id poll_interval max_attempts w)) = queue w
   \<and> (\<exists>cs. sent (snd (poll_result faults others task_id poll_interval max_attempts w)) = sent w @ cs
          \<and> list_all is_read_or_sleep cs)"
proof -
  have "queue (snd (poll_loop faults others task_id poll_interval max_attempts 1 w)) = queue w"
    by (rule poll_loop_invariant [where R = "\<lambda>w w'. queue w' = queue w"])
       (auto simp: get_task_status_frame sleep_def issue_def)
  then show ?thesis
    using poll_loop_frame [of faults task_id poll_interval max_attempts 1 w]
      poll_loop_commands [of faults others task_id poll_interval max_attempts 1 w]
    by (simp add: poll_result_def get_task_status_frame)
qed

subsection \<open>Reading back what \<open>json.dumps\<close> wrote\<close>


declare str_nat.simps [simp del]

lemma char_of_digit:
  assumes "d < 10"
  shows "(of_char (char_of (48 + d)) :: nat) = 48 + d"
  using assms by simp

lemma digit_char:
  assumes "d < 10"
  shows "is_digit (char_of (48 + d))" "digit_val (char_of (48 + d)) = d"
    "char_of (48 + d) = CHR ''0'' \<longleftrightarrow> d = 0" "char_of (48 + d) \<noteq> CHR ''-''"
proof -
  note m = char_of_digit [OF assms]
  show "is_digit (char_of (48 + d))" "digit_val (char_of (48 + d)) = d"
    using assms m by (simp_all add: is_digit_def digit_val_def del: of_char_of)
  have "char_of (48 + d) = c \<longleftrightarrow> 48 + d = (of_char c :: nat)" for c
    using m by (metis of_char_eq_iff)
  then show "char_of (48 + d) = CHR ''0'' \<longleftrightarrow> d = 0" "char_of (48 + d) \<noteq> CHR ''-''"
    by simp_all
qed

lemma str_nat_small: "n < 10 \<Longrightarrow> str_nat n = [char_of (48 + n)]"
  by (subst str_nat.simps) simp

lemma str_nat_big: "\<not> n < 10 \<Longrightarrow> str_nat n = str_nat (n div 10) @ [char_of (48 + n mod 10)]"
  by (subst str_nat.simps) simp

lemma str_nat_digits: "list_all is_digit (str_nat n) \<and> str_nat n \<noteq> []"
proof (induction n rule: str_nat.induct)
  case (1 n)
  show ?case
  proof (cases "n < 10")
    case True
    then show ?thesis by (simp add: str_nat_small digit_char)
  next
    case False
    then show ?thesis using 1 by (simp add: str_nat_big digit_char)
  qed
qed

lemma nat_of_digits_snoc: "nat_of_digits (ds @ [c]) = 10 * nat_of_digits ds + digit_val c"
  by (simp add: nat_of_digits_def)

lemma nat_of_digits_str_nat: "nat_of_digits (str_nat n) = n"
proof (induction n rule: str_nat.induct)
  case (1 n)
  show ?case
  proof (cases "n < 10")
    case True
    then have "nat_of_digits (str_nat n) = digit_val (char_of (48 + n))"
      by (simp add: str_nat_small nat_of_digits_def)
    then show ?thesis using True by (simp add: digit_char)
  next
    case False
    then have "nat_of_digits (str_nat n) = 10 * (n div 10) + n mod 10"
      using 1 by (simp add: str_nat_big nat_of_digits_snoc digit_char)
    then show ?thesis by simp
  qed
qed

lemma hd_str_nat: "hd (str_nat n) = CHR ''0'' \<Longrightarrow> n = 0"
proof (induction n rule: str_nat.induct)
  case (1 n)
  show ?case
  proof (cases "n < 10")
    case True
    then show ?thesis using 1(2) by (simp add: str_nat_small digit_char)
  next
    case False
    then have "n div 10 \<noteq> 0" by simp
    moreover have "hd (str_nat (n div 10)) = CHR ''0''"
      using 1(2) False str_nat_digits [of "n div 10"] by (simp add: str_nat_big)
    ultimately show ?thesis using 1(1) False by simp
  qed
qed

lemma str_nat_0: "str_nat 0 = ''0''"
  using digit_char(3) [of 0] by (simp add: str_nat_small)

lemma str_nat_shape:
  obtains c cs where "str_nat n = c # cs" "is_digit c" "c \<noteq> CHR ''-''"
    "takeWhile is_digit cs = cs" "dropWhile is_digit cs = []" "c = CHR ''0'' \<longrightarrow> cs = [] \<and> n = 0"
proof (cases "str_nat n")
  case Nil
  then show ?thesis using str_nat_digits [of n] by simp
next
  case (Cons c cs)
  have d: "is_digit c" "list_all is_digit cs" using str_nat_digits [of n] Cons by simp_all
  have a: "c \<noteq> CHR ''-''" using d(1) by (auto simp: is_digit_def)
  have t: "takeWhile is_digit cs = cs" "dropWhile is_digit cs = []"
    using d(2) by (simp_all add: list_all_iff)
  have z: "c = CHR ''0'' \<longrightarrow> cs = [] \<and> n = 0"
  proof
    assume "c = CHR ''0''"
    then have "n = 0" using hd_str_nat [of n] Cons by simp
    then show "cs = [] \<and> n = 0" using Cons str_nat_0 by simp
  qed
  show ?thesis using that [OF Cons d(1) a t z] .
qed

lemma delim_cases:
  "delim r \<Longrightarrow> r = [] \<or> (\<exists>c t. r = c # t \<and> (c = CHR '','' \<or> c = CHR '']'' \<or> c = CHR ''}''))"
  by (cases r) (auto simp: delim_def)

lemma takeWhile_delim: "delim r \<Longrightarrow> takeWhile is_digit (xs @ r) = takeWhile is_digit xs"
  by (induction xs) (auto dest!: delim_cases simp: is_digit_def)

lemma dropWhile_delim: "delim r \<Longrightarrow> dropWhile is_digit (xs @ r) = dropWhile is_digit xs @ r"
  by (induction xs) (auto dest!: delim_cases simp: is_digit_def)

lemma match_integer_ext:
  assumes "delim r" "match_integer s = Some (a, b)"
  shows "match_integer (s @ r) = Some (a, b @ r)"
proof -
  note tw = takeWhile_delim [OF assms(1)] dropWhile_delim [OF assms(1)]
  have u: "match_integer (d # ds @ r) = Some (a', b' @ r)"
    if "match_integer (d # ds) = Some (a', b')" "d \<noteq> CHR ''-''" for d ds a' b'
    using that tw by (auto simp: match_integer_def split: if_splits)
  show ?thesis
  proof (cases s)
    case Nil
    then show ?thesis using assms(2) by (simp add: match_integer_def)
  next
    case (Cons c cs)
    show ?thesis
    proof (cases "c = CHR ''-''")
      case False
      then show ?thesis using u [of c cs a b] assms(2) Cons by simp
    next
      case True
      show ?thesis
      proof (cases cs)
        case Nil
        then show ?thesis using assms(2) Cons True by (simp add: match_integer_def)
      next
        case c2: (Cons d ds)
        then show ?thesis using assms(2) Cons True tw
          by (auto simp: match_integer_def split: if_splits)
      qed
    qed
  qed
qed

lemma match_frac_ext:
  assumes "delim r"
  shows "match_frac (s @ r) = (fst (match_frac s), snd (match_frac s) @ r)"
proof (cases s)
  case Nil
  then show ?thesis using delim_cases [OF assms]
    by (auto simp: match_frac_def split: list.splits)
next
  case (Cons c t)
  show ?thesis
  proof (cases t)
    case Nil
    then show ?thesis using Cons delim_cases [OF assms]
      by (auto simp: match_frac_def is_digit_def split: list.splits)
  next
    case (Cons d ds)
    then show ?thesis using \<open>s = c # t\<close> takeWhile_delim [OF assms] dropWhile_delim [OF assms]
      by (simp add: match_frac_def)
  qed
qed

lemma match_exp_ext:
  assumes "delim r"
  shows "match_exp (s @ r) = (fst (match_exp s), snd (match_exp s) @ r)"
proof -
  have nd: "r = c # t \<Longrightarrow> \<not> is_digit c \<and> c \<noteq> CHR ''e'' \<and> c \<noteq> CHR ''E'' \<and> c \<noteq> CHR ''+'' \<and> c \<noteq> CHR ''-''" for c t
    using delim_cases [OF assms] by (auto simp: is_digit_def)
  show ?thesis
  proof (cases s)
    case Nil
    then show ?thesis using nd by (cases r) (simp_all add: match_exp_def)
  next
    case s: (Cons e t)
    show ?thesis
    proof (cases t)
      case Nil
      then show ?thesis using s nd by (cases r) (simp_all add: match_exp_def)
    next
      case t: (Cons g u)
      show ?thesis
      proof (cases u)
        case Nil
        then show ?thesis using s t nd by (cases r) (simp_all add: match_exp_def)
      next
        case (Cons d ds)
        then show ?thesis using s t takeWhile_delim [OF assms] dropWhile_delim [OF assms]
          by (simp add: match_exp_def)
      qed
    qed
  qed
qed

lemma match_number_ext:
  assumes "delim r" "match_number s = Some (v, b)"
  shows "match_number (s @ r) = Some (v, b @ r)"
proof -
  obtain a r1 where i: "match_integer s = Some (a, r1)"
    using assms(2) by (auto simp: match_number_def split: option.splits)
  obtain fr r2 where f: "match_frac r1 = (fr, r2)" by (cases "match_frac r1")
  obtain ex r3 where e: "match_exp r2 = (ex, r3)" by (cases "match_exp r2")
  have i': "match_integer (s @ r) = Some (a, r1 @ r)" by (rule match_integer_ext [OF assms(1) i])
  have f': "match_frac (r1 @ r) = (fr, r2 @ r)" using match_frac_ext [OF assms(1), of r1] f by simp
  have e': "match_exp (r2 @ r) = (ex, r3 @ r)" using match_exp_ext [OF assms(1), of r2] e by simp
  have "match_number s = (if fr \<noteq> [] \<or> ex \<noteq> [] then Some (JFloat (a @ fr @ ex), r3)
           else Some (JInt (int_of_str a), r3))"
    by (simp add: match_number_def i f e)
  moreover have "match_number (s @ r) = (if fr \<noteq> [] \<or> ex \<noteq> [] then Some (JFloat (a @ fr @ ex), r3 @ r)
           else Some (JInt (int_of_str a), r3 @ r))"
    by (simp add: match_number_def i' f' e')
  ultimately show ?thesis using assms(2) by (auto split: if_splits)
qed

lemma match_integer_str_nat:
  "match_integer (str_nat n) = Some (str_nat n, [])"
  "n \<noteq> 0 \<Longrightarrow> match_integer (CHR ''-'' # str_nat n) = Some (CHR ''-'' # str_nat n, [])"
proof -
  obtain c cs where s: "str_nat n = c # cs" "is_digit c" "c \<noteq> CHR ''-''"
    "takeWhile is_digit cs = cs" "dropWhile is_digit cs = []"
    "c = CHR ''0'' \<longrightarrow> cs = [] \<and> n = 0"
    by (rule str_nat_shape)
  show "match_integer (str_nat n) = Some (str_nat n, [])"
    using s by (cases "c = CHR ''0''") (simp_all add: match_integer_def)
  show "match_integer (CHR ''-'' # str_nat n) = Some (CHR ''-'' # str_nat n, [])" if "n \<noteq> 0"
    using s that by (cases "c = CHR ''0''") (simp_all add: match_integer_def)
qed

lemma match_integer_str_int: "match_integer (str_int i) = Some (str_int i, [])"
proof (cases "i < 0")
  case True
  then have "nat (- i) \<noteq> 0" by simp
  then show ?thesis using True match_integer_str_nat(2) [of "nat (- i)"] by (simp add: str_int_def)
next
  case False
  then show ?thesis using match_integer_str_nat(1) [of "nat i"] by (simp add: str_int_def)
qed

lemma int_of_str_str_int: "int_of_str (str_int i) = i"
proof (cases "i < 0")
  case True
  then show ?thesis by (simp add: str_int_def int_of_str_def nat_of_digits_str_nat)
next
  case False
  obtain c cs where s: "str_nat (nat i) = c # cs" "c \<noteq> CHR ''-''"
    by (rule str_nat_shape [of "nat i"])
  have "int_of_str (str_nat (nat i)) = int (nat_of_digits (str_nat (nat i)))"
    using s by (simp add: int_of_str_def)
  then show ?thesis using False by (simp add: str_int_def nat_of_digits_str_nat)
qed

lemma match_number_str_int: "delim r \<Longrightarrow> match_number (str_int i @ r) = Some (JInt i, r)"
proof -
  assume "delim r"
  have "match_number (str_int i) = Some (JInt i, [])"
    by (simp add: match_number_def match_integer_str_int match_frac_def match_exp_def int_of_str_str_int)
  from match_number_ext [OF \<open>delim r\<close> this] show ?thesis by simp
qed

lemma str_int_hd:
  obtains c cs where "str_int i = c # cs" "c = CHR ''-'' \<or> is_digit c"
proof (cases "i < 0")
  case True
  then show ?thesis using that by (simp add: str_int_def)
next
  case False
  obtain c cs where "str_nat (nat i) = c # cs" "is_digit c" by (rule str_nat_shape [of "nat i"])
  then show ?thesis using that False by (simp add: str_int_def)
qed

lemma match_number_hd:
  assumes "match_number s = Some (v, b)"
  obtains c cs where "s = c # cs" "c = CHR ''-'' \<or> is_digit c"
proof -
  obtain a r1 where i: "match_integer s = Some (a, r1)"
    using assms by (auto simp: match_number_def split: option.splits)
  then show ?thesis using that
    by (cases s) (auto simp: match_integer_def is_digit_def split: if_splits list.splits)
qed

lemma hex_val_hex_digit_all: "\<forall>n \<in> set [0..<16]. hex_val (hex_digit n) = Some n"
  by code_simp

lemma hex_val_hex_digit: "n < 16 \<Longrightarrow> hex_val (hex_digit n) = Some n"
  using hex_val_hex_digit_all by simp

lemma hex_val_zero: "hex_val CHR ''0'' = Some 0"
  by (simp add: hex_val_def)

lemma decode_escape:
  "decode_uXXXX CHR ''0'' CHR ''0'' (hex_digit (of_char c div 16)) (hex_digit (of_char c mod 16))
     = Some (of_char c)"
proof -
  have "(of_char c :: nat) div 16 < 16" by (rule less_mult_imp_div_less) simp
  then show ?thesis
    by (simp add: decode_uXXXX_def hex_val_zero hex_val_hex_digit)
qed

lemma scanstring_escape_char: "scanstring (escape_char c @ rest) = prepend c (scanstring rest)"
proof -
  consider (q) "c = CHR 0x22" | (b) "c = CHR 0x5C" | (n) "c = CHR 0x0A" | (r) "c = CHR 0x0D"
    | (t) "c = CHR 0x09" | (bs) "c = CHR 0x08" | (f) "c = CHR 0x0C"
    | (raw) "c \<notin> {CHR 0x22, CHR 0x5C, CHR 0x0A, CHR 0x0D, CHR 0x09, CHR 0x08, CHR 0x0C}"
        "0x20 \<le> (of_char c :: nat) \<and> (of_char c :: nat) \<le> 0x7E"
    | (u) "c \<notin> {CHR 0x22, CHR 0x5C, CHR 0x0A, CHR 0x0D, CHR 0x09, CHR 0x08, CHR 0x0C}"
        "\<not> (0x20 \<le> (of_char c :: nat) \<and> (of_char c :: nat) \<le> 0x7E)"
    by blast
  then show ?thesis
  proof cases
    case raw
    then show ?thesis by (simp add: escape_char_def)
  next
    case u
    have lt: "(of_char c :: nat) < 256" by (rule nat_of_char_less_256)
    show ?thesis using u decode_escape [of c] lt
      by (simp add: escape_char_def)
  qed (simp_all add: escape_char_def backslash_def)
qed

lemma scanstring_encoded:
  "scanstring (concat (map escape_char s) @ CHR 0x22 # rest) = Some (s, rest)"
  by (induction s) (simp_all add: scanstring_escape_char prepend_def)

lemma encode_basestring_ascii_Cons:
  "encode_basestring_ascii s @ rest = CHR 0x22 # (concat (map escape_char s) @ CHR 0x22 # rest)"
  by (simp add: encode_basestring_ascii_def)

lemmas parse_simps = parse_value.simps parse_elems.simps parse_members.simps
declare parse_simps [simp del]

lemma skip_ws_Cons: "\<not> is_ws c \<Longrightarrow> skip_ws (c # cs) = c # cs"
  by (simp add: skip_ws_def)

lemma skip_ws_space: "skip_ws (CHR '' '' # cs) = skip_ws cs"
  by (simp add: skip_ws_def is_ws_def)

lemma skip_ws_Nil: "skip_ws [] = []"
  by (simp add: skip_ws_def)

lemma parse_value_string:
  "parse_value (Suc n) (CHR 0x22 # cs) =
     (case scanstring cs of None \<Rightarrow> None | Some (str, r) \<Rightarrow> Some (JStr str, r))"
  by (simp add: parse_simps)

lemma parse_value_list:
  "parse_value (Suc n) (CHR ''['' # cs) =
     (case skip_ws cs of
        [] \<Rightarrow> None
      | d # r \<Rightarrow>
          if d = CHR '']'' then Some (JList [], r)
          else (case parse_elems n (d # r) of
                  None \<Rightarrow> None
                | Some (values, r') \<Rightarrow> Some (JList values, r')))"
  by (simp add: parse_simps)

lemma parse_value_dict:
  "parse_value (Suc n) (CHR ''{'' # cs) =
     (case skip_ws cs of
        [] \<Rightarrow> None
      | d # r \<Rightarrow>
          if d = CHR ''}'' then Some (JDict [], r)
          else if d = CHR 0x22 then
            (case parse_members n r of
               None \<Rightarrow> None
             | Some (pairs, r') \<Rightarrow> Some (JDict (dict_of_pairs pairs), r'))
          else None)"
  by (simp add: parse_simps)

lemma parse_value_number:
  assumes "c = CHR ''-'' \<or> is_digit c" "match_number (c # cs) = Some res"
  shows "parse_value (Suc n) (c # cs) = Some res"
proof -
  have "c \<noteq> CHR 0x22" "c \<noteq> CHR ''{''" "c \<noteq> CHR ''[''" "c \<noteq> CHR ''n''" "c \<noteq> CHR ''t''" "c \<noteq> CHR ''f''"
    using assms(1) by (auto simp: is_digit_def)
  then show ?thesis using assms(2) by (simp add: parse_simps)
qed

lemma parse_value_literals:
  "parse_value (Suc n) (''null'' @ r) = Some (JNull, r)"
  "parse_value (Suc n) (''true'' @ r) = Some (JBool True, r)"
  "parse_value (Suc n) (''false'' @ r) = Some (JBool False, r)"
  by (simp_all add: parse_simps)

lemma starts_value_digit: "c = CHR ''-'' \<or> is_digit c \<Longrightarrow> starts_value (c # cs)"
  by (auto simp: starts_value_def is_ws_def is_digit_def)

lemma starts_value_dumps: "wf_json v \<Longrightarrow> starts_value (json_dumps v)"
proof (cases v)
  case (JInt i)
  obtain c cs where "str_int i = c # cs" "c = CHR ''-'' \<or> is_digit c" by (rule str_int_hd)
  then show ?thesis using JInt starts_value_digit by simp
next
  case (JFloat f)
  assume "wf_json v"
  then have "match_number f = Some (JFloat f, [])" using JFloat by simp
  then obtain c cs where "f = c # cs" "c = CHR ''-'' \<or> is_digit c" by (rule match_number_hd)
  then show ?thesis using JFloat starts_value_digit by simp
qed (simp_all add: starts_value_def is_ws_def encode_basestring_ascii_def)

lemma starts_value_append: "starts_value s \<Longrightarrow> starts_value (s @ t)"
  by (cases s) (simp_all add: starts_value_def)

lemma skip_ws_starts_value: "starts_value s \<Longrightarrow> skip_ws s = s"
  by (cases s) (simp_all add: starts_value_def skip_ws_def)

lemma dict_update_fresh: "k \<notin> fst ` set d \<Longrightarrow> dict_update k v d = d @ [(k, v)]"
  by (induction d) auto

lemma dict_of_pairs_aux:
  "distinct (map fst (acc @ ps)) \<Longrightarrow> foldl (\<lambda>d (k, v). dict_update k v d) acc ps = acc @ ps"
proof (induction ps arbitrary: acc)
  case Nil
  then show ?case by simp
next
  case (Cons p ps)
  obtain k v where p: "p = (k, v)" by (cases p)
  have "k \<notin> fst ` set acc" using Cons.prems p by auto
  then have "dict_update k v acc = acc @ [(k, v)]" by (rule dict_update_fresh)
  moreover have "distinct (map fst ((acc @ [(k, v)]) @ ps))" using Cons.prems p by simp
  ultimately show ?case using Cons.IH [of "acc @ [(k, v)]"] p by simp
qed

lemma dict_of_pairs_distinct: "distinct (map fst ps) \<Longrightarrow> dict_of_pairs ps = ps"
  using dict_of_pairs_aux [of "[]" ps] by (simp add: dict_of_pairs_def)

lemma delim_simps: "delim (CHR '']'' # r)" "delim (CHR ''}'' # r)" "delim (CHR '','' # r)" "delim []"
  by (simp_all add: delim_def)

lemma skip_ws_delim: "delim r \<Longrightarrow> skip_ws r = r"
  by (cases r) (auto simp: delim_def skip_ws_def is_ws_def)

lemma parse_elems_join:
  assumes IH: "\<And>x n r. x \<in> set xs \<Longrightarrow> delim r \<Longrightarrow> length (json_dumps x) \<le> n
                 \<Longrightarrow> parse_value n (json_dumps x @ r) = Some (x, r)"
    and wf: "list_all wf_json xs"
    and ne: "xs \<noteq> []"
    and fuel: "length (join '', '' (map json_dumps xs)) < n"
  shows "parse_elems n (join '', '' (map json_dumps xs) @ CHR '']'' # r) = Some (xs, r)"
  using assms
proof (induction xs arbitrary: n rule: induct_list012)
  case 1
  then show ?case by simp
next
  case (2 x)
  obtain m where n: "n = Suc m" using 2(4) by (cases n) simp_all
  have "parse_value m (json_dumps x @ CHR '']'' # r) = Some (x, CHR '']'' # r)"
    by (rule 2(1)) (use 2(4) n in \<open>simp_all add: delim_simps\<close>)
  then show ?case by (simp add: n parse_simps skip_ws_delim delim_simps)
next
  case (3 x y zs)
  obtain m where n: "n = Suc m" using 3(6) by (cases n) simp_all
  let ?rest = "join '', '' (map json_dumps (y # zs)) @ CHR '']'' # r"
  have sv: "starts_value ?rest"
  proof -
    have "starts_value (json_dumps y)" using 3(4) by (simp add: starts_value_dumps)
    then show ?thesis by (cases zs) (simp_all add: starts_value_append)
  qed
  have len: "length (json_dumps x) \<le> m" "length (join '', '' (map json_dumps (y # zs))) < m"
    using 3(6) n by simp_all
  have a: "parse_value m (json_dumps x @ CHR '','' # CHR '' '' # ?rest) = Some (x, CHR '','' # CHR '' '' # ?rest)"
    by (rule 3(3)) (use len(1) in \<open>simp_all add: delim_simps\<close>)
  have b: "parse_elems m ?rest = Some (y # zs, r)"
    by (rule 3(2)) (use 3(3) 3(4) len(2) in \<open>simp_all\<close>)
  show ?case
    using a b
    by (simp add: n parse_elems.simps skip_ws_delim delim_simps skip_ws_space skip_ws_starts_value [OF sv, simplified])
qed

lemma item_Cons:
  "item (k, v) @ rest = CHR 0x22 # (concat (map escape_char k) @ CHR 0x22 # CHR '':'' # CHR '' '' # json_dumps v @ rest)"
  by (simp add: encode_basestring_ascii_def)

lemma join_items_Cons:
  "kvs \<noteq> [] \<Longrightarrow> join '', '' (map item kvs) = CHR 0x22 # tl (join '', '' (map item kvs))"
  by (induction kvs rule: induct_list012) (auto simp: encode_basestring_ascii_def)

lemma parse_members_step:
  assumes "parse_value m (json_dumps v @ rest) = Some (v, rest)" "starts_value (json_dumps v)"
  shows "parse_members (Suc m) (concat (map escape_char k) @ CHR 0x22 # CHR '':'' # CHR '' '' # json_dumps v @ rest)
     = (case skip_ws rest of
          [] \<Rightarrow> None
        | d # r3 \<Rightarrow>
            if d = CHR ''}'' then Some ([(k, v)], r3)
            else if d = CHR '','' then
              (case skip_ws r3 of
                 [] \<Rightarrow> None
               | q # r4 \<Rightarrow>
                   if q = CHR 0x22 then
                     (case parse_members m r4 of
                        None \<Rightarrow> None
                      | Some (ps, r5) \<Rightarrow> Some ((k, v) # ps, r5))
                   else None)
            else None)"
proof -
  have c: "skip_ws (CHR '':'' # t) = CHR '':'' # t" for t
    by (simp add: skip_ws_def is_ws_def)
  have s: "skip_ws (CHR '' '' # json_dumps v @ rest) = json_dumps v @ rest"
    using skip_ws_starts_value [OF starts_value_append [OF assms(2)]] by (simp add: skip_ws_space)
  show ?thesis
    by (simp add: parse_members.simps scanstring_encoded c s assms(1))
qed

lemma parse_members_join:
  assumes IH: "\<And>k v n r. (k, v) \<in> set kvs \<Longrightarrow> delim r \<Longrightarrow> length (json_dumps v) \<le> n
                 \<Longrightarrow> parse_value n (json_dumps v @ r) = Some (v, r)"
    and wf: "list_all (\<lambda>(k, v). wf_json v) kvs"
    and ne: "kvs \<noteq> []"
    and fuel: "length (join '', '' (map item kvs)) < n"
  shows "parse_members n (tl (join '', '' (map item kvs)) @ CHR ''}'' # r) = Some (kvs, r)"
  using assms
proof (induction kvs arbitrary: n rule: induct_list012)
  case 1
  then show ?case by simp
next
  case (2 kv)
  obtain k v where kv: "kv = (k, v)" by (cases kv)
  obtain m where n: "n = Suc m" using 2(4) by (cases n) simp_all
  have sv: "starts_value (json_dumps v)" using 2(2) kv by (simp add: starts_value_dumps)
  have a: "parse_value m (json_dumps v @ CHR ''}'' # r) = Some (v, CHR ''}'' # r)"
    by (rule 2(1) [of k]) (use 2(4) n kv in \<open>simp_all add: delim_simps\<close>)
  show ?case
    using parse_members_step [OF a sv, of k]
    by (simp add: kv n encode_basestring_ascii_def skip_ws_delim delim_simps)
next
  case (3 kv kv' zs)
  obtain k v where kv: "kv = (k, v)" by (cases kv)
  obtain m where n: "n = Suc m" using 3(6) by (cases n) simp_all
  let ?j = "join '', '' (map item (kv' # zs))"
  have j: "?j = CHR 0x22 # tl ?j" by (rule join_items_Cons) simp
  have sv: "starts_value (json_dumps v)" using 3(4) kv by (simp add: starts_value_dumps)
  have len: "length (json_dumps v) \<le> m" "length ?j < m"
    using 3(6) n kv by simp_all
  let ?rest = "CHR '','' # CHR '' '' # ?j @ CHR ''}'' # r"
  have a: "parse_value m (json_dumps v @ ?rest) = Some (v, ?rest)"
    by (rule 3(3) [of k]) (use len(1) kv in \<open>simp_all add: delim_simps\<close>)
  have b: "parse_members m (tl ?j @ CHR ''}'' # r) = Some (kv' # zs, r)"
  proof (rule 3(2))
    show "parse_value n' (json_dumps v' @ r') = Some (v', r')"
      if "(k', v') \<in> set (kv' # zs)" "delim r'" "length (json_dumps v') \<le> n'" for k' v' n' r'
      by (rule 3(3) [of k']) (use that in \<open>simp_all\<close>)
    show "list_all (\<lambda>(k, v). wf_json v) (kv' # zs)" using 3(4) by simp
    show "kv' # zs \<noteq> []" by simp
    show "length ?j < m" by (rule len(2))
  qed
  have q: "skip_ws (CHR '' '' # ?j @ CHR ''}'' # r) = CHR 0x22 # tl ?j @ CHR ''}'' # r"
    by (subst j) (simp add: skip_ws_def is_ws_def)
  have t: "tl (join '', '' (map item (kv # kv' # zs))) @ CHR ''}'' # r
         = concat (map escape_char k) @ CHR 0x22 # CHR '':'' # CHR '' '' # json_dumps v @ ?rest"
    by (simp add: kv encode_basestring_ascii_def)
  show ?case
    unfolding t n
    by (subst parse_members_step [OF a sv])
       (simp add: skip_ws_delim delim_simps q [simplified] b [simplified] kv)
qed

lemma parse_value_dumps:
  "wf_json v \<Longrightarrow> delim r \<Longrightarrow> length (json_dumps v) \<le> n
     \<Longrightarrow> parse_value n (json_dumps v @ r) = Some (v, r)"
proof (induction v arbitrary: n r)
  case JNull
  then obtain m where "n = Suc m" by (cases n) simp_all
  then show ?case using parse_value_literals(1) [of m r] by simp
next
  case (JBool b)
  then obtain m where "n = Suc m" by (cases n; cases b) simp_all
  then show ?case using parse_value_literals(2,3) [of m r] by (cases b) simp_all
next
  case (JInt i)
  obtain m where n: "n = Suc m" using JInt(3) str_int_hd [of i] by (cases n) auto
  obtain c cs where s: "str_int i = c # cs" "c = CHR ''-'' \<or> is_digit c" by (rule str_int_hd)
  have "match_number (c # cs @ r) = Some (JInt i, r)"
    using match_number_str_int [OF JInt(2), of i] s(1) by simp
  from parse_value_number [OF s(2) this] show ?case by (simp add: n s(1))
next
  case (JFloat f)
  have m: "match_number f = Some (JFloat f, [])" using JFloat(1) by simp
  obtain c cs where s: "f = c # cs" "c = CHR ''-'' \<or> is_digit c" using m by (rule match_number_hd)
  obtain m' where n: "n = Suc m'" using JFloat(3) s by (cases n) auto
  have "match_number (c # cs @ r) = Some (JFloat f, r)"
    using match_number_ext [OF JFloat(2) m] s(1) by simp
  from parse_value_number [OF s(2) this] show ?case by (simp add: n s(1))
next
  case (JStr s)
  then obtain m where n: "n = Suc m" by (cases n) (simp_all add: encode_basestring_ascii_def)
  show ?case
    by (simp add: n encode_basestring_ascii_def parse_value_string scanstring_encoded)
next
  case (JList xs)
  obtain m where n: "n = Suc m" using JList(4) by (cases n) simp_all
  show ?case
  proof (cases "xs = []")
    case True
    then show ?thesis by (simp add: n parse_value_list skip_ws_def is_ws_def)
  next
    case False
    let ?j = "join '', '' (map json_dumps xs)"
    have e: "parse_elems m (?j @ CHR '']'' # r) = Some (xs, r)"
    proof (rule parse_elems_join)
      show "parse_value n' (json_dumps x @ r') = Some (x, r')"
        if "x \<in> set xs" "delim r'" "length (json_dumps x) \<le> n'" for x n' r'
        using JList(1) [OF that(1) _ that(2,3)] JList(2) that(1) by (simp add: list_all_iff)
      show "list_all wf_json xs" using JList(2) by simp
      show "xs \<noteq> []" by (rule False)
      show "length ?j < m" using JList(4) n by simp
    qed
    have sv: "starts_value (?j @ CHR '']'' # r)"
    proof -
      obtain x ys where xs: "xs = x # ys" using False by (cases xs) simp_all
      then have "starts_value (json_dumps x)" using JList(2) by (simp add: starts_value_dumps)
      then show ?thesis using xs by (cases ys) (simp_all add: starts_value_append)
    qed
    obtain d t where dt: "?j @ CHR '']'' # r = d # t" "d \<noteq> CHR '']''"
      using sv by (cases "?j @ CHR '']'' # r") (simp_all add: starts_value_def)
    have "parse_value (Suc m) (CHR ''['' # (?j @ CHR '']'' # r)) = Some (JList xs, r)"
      unfolding parse_value_list skip_ws_starts_value [OF sv]
      using e dt by simp
    then show ?thesis by (simp add: n)
  qed
next
  case (JDict kvs)
  obtain m where n: "n = Suc m" using JDict(4) by (cases n) simp_all
  show ?case
  proof (cases "kvs = []")
    case True
    then show ?thesis by (simp add: n parse_value_dict skip_ws_def is_ws_def dict_of_pairs_def)
  next
    case False
    let ?j = "join '', '' (map item kvs)"
    have j: "?j = CHR 0x22 # tl ?j" by (rule join_items_Cons [OF False])
    have e: "parse_members m (tl ?j @ CHR ''}'' # r) = Some (kvs, r)"
    proof (rule parse_members_join)
      show "parse_value n' (json_dumps v @ r') = Some (v, r')"
        if "(k, v) \<in> set kvs" "delim r'" "length (json_dumps v) \<le> n'" for k v n' r'
      proof (rule JDict(1) [OF that(1) _ _ that(2,3)])
        show "v \<in> Basic_BNFs.snds (k, v)" by simp
        show "wf_json v" using JDict(2) that(1) by (auto simp: list_all_iff)
      qed
      show "list_all (\<lambda>(k, v). wf_json v) kvs" using JDict(2) by simp
      show "kvs \<noteq> []" by (rule False)
      show "length ?j < m" using JDict(4) n by simp
    qed
    have "parse_value (Suc m) (CHR ''{'' # ?j @ CHR ''}'' # r) = Some (JDict kvs, r)"
      by (subst j)
         (use e JDict(2) in \<open>simp add: parse_value_dict skip_ws_def is_ws_def dict_of_pairs_distinct\<close>)
    then show ?thesis by (simp add: n)
  qed
qed

lemma json_decode_dumps: "wf_json v \<Longrightarrow> json_decode (json_dumps v) = Some v"
proof -
  assume wf: "wf_json v"
  have "skip_ws (json_dumps v) = json_dumps v"
    by (rule skip_ws_starts_value [OF starts_value_dumps [OF wf]])
  moreover have "parse_value (Suc (length (json_dumps v))) (json_dumps v @ []) = Some (v, [])"
    by (rule parse_value_dumps [OF wf]) (simp_all add: delim_simps)
  ultimately show ?thesis by (simp add: json_decode_def skip_ws_Nil)
qed

subsection \<open>The bound on nested calls\<close>

text \<open>
  A larger bound never changes what the scanner reads, and a bound of the number of
  characters read is enough; so \<open>json_decode\<close>, which passes one more than the length of
  the text, reads whatever any bound would let it read.
\<close>

lemma parse_value_atom:
  "c \<noteq> CHR ''{'' \<Longrightarrow> c \<noteq> CHR ''['' \<Longrightarrow> parse_value (Suc m) (c # cs) = parse_value (Suc n) (c # cs)"
  by (simp only: parse_value.simps if_False)

lemma parse_mono:
  "(parse_value m s = Some a \<longrightarrow> m \<le> n \<longrightarrow> parse_value n s = Some a)
   \<and> (parse_elems m s = Some b \<longrightarrow> m \<le> n \<longrightarrow> parse_elems n s = Some b)
   \<and> (parse_members m s = Some c \<longrightarrow> m \<le> n \<longrightarrow> parse_members n s = Some c)"
proof (induction m arbitrary: s a b c n)
  case 0
  then show ?case by (simp add: parse_simps)
next
  case (Suc m)
  note IHv = Suc.IH [THEN conjunct1, rule_format]
  note IHe = Suc.IH [THEN conjunct2, THEN conjunct1, rule_format]
  note IHm = Suc.IH [THEN conjunct2, THEN conjunct2, rule_format]
  show ?case
  proof (cases n)
    case 0
    then show ?thesis by simp
  next
    case n: (Suc n')
    have v: "parse_value (Suc m) s = Some a \<Longrightarrow> m \<le> n' \<Longrightarrow> parse_value (Suc n') s = Some a"
    proof (cases s)
      case Nil
      then show "parse_value (Suc m) s = Some a \<Longrightarrow> parse_value (Suc n') s = Some a"
        by (simp add: parse_simps)
    next
      case (Cons c cs)
      assume a: "parse_value (Suc m) s = Some a" and le: "m \<le> n'"
      show ?thesis
      proof (cases "c = CHR ''{''")
        case True
        then show ?thesis using a le Cons IHm [of _ _ n']
          by (auto simp: parse_value_dict split: list.splits if_splits option.splits)
      next
        case nb: False
        show ?thesis
        proof (cases "c = CHR ''[''")
          case True
          then show ?thesis using a le Cons IHe [of _ _ n']
            by (auto simp: parse_value_list split: list.splits if_splits option.splits)
        next
          case False
          then show ?thesis using a nb Cons parse_value_atom [of c m cs n'] by simp
        qed
      qed
    qed
    have e: "parse_elems (Suc m) s = Some b \<Longrightarrow> m \<le> n' \<Longrightarrow> parse_elems (Suc n') s = Some b"
      using IHv [of _ _ n'] IHe [of _ _ n']
      by (auto simp: parse_elems.simps split: option.splits list.splits if_splits)
    have mm: "parse_members (Suc m) s = Some c \<Longrightarrow> m \<le> n' \<Longrightarrow> parse_members (Suc n') s = Some c"
      using IHv [of _ _ n'] IHm [of _ _ n']
      by (auto simp: parse_members.simps split: option.splits list.splits if_splits)
    show ?thesis using v e mm n by simp
  qed
qed

lemma length_skip_ws: "length (skip_ws s) \<le> length s"
  by (simp add: skip_ws_def length_dropWhile_le)

lemma prepend_Some: "prepend c x = Some (a, r) \<Longrightarrow> \<exists>a'. x = Some (a', r)"
  by (cases x) (auto simp: prepend_def)

lemma scanstring_shorter: "scanstring s = Some (a, r) \<Longrightarrow> length r < length s"
proof (induction s arbitrary: a rule: length_induct)
  case (1 s)
  have IH: "scanstring t = Some (a', r) \<Longrightarrow> length t < length s \<Longrightarrow> length r < length s" for t a'
    using 1(1) by fastforce
  obtain c cs where s: "s = c # cs" using 1(2) by (cases s) simp_all
  have rec: "prepend ch (scanstring t) = Some (a, r) \<Longrightarrow> length t < length s \<Longrightarrow> length r < length s"
    for ch t
    using prepend_Some [of ch "scanstring t" a r] IH [of t] by blast
  show ?case
  proof (cases "c = CHR 0x22")
    case True
    then show ?thesis using 1(2) s by simp
  next
    case nq: False
    show ?thesis
    proof (cases "c = CHR 0x5C")
      case False
      then have "prepend c (scanstring cs) = Some (a, r)" using 1(2) s nq by (simp split: if_splits)
      then show ?thesis by (rule rec) (simp add: s)
    next
      case True
      then obtain e t where cs: "cs = e # t" using 1(2) s nq by (cases cs) simp_all
      show ?thesis
      proof (cases "e = CHR ''u''")
        case False
        then obtain ch where "prepend ch (scanstring t) = Some (a, r)"
          using 1(2) s nq True cs by (simp split: option.splits)
        then show ?thesis by (rule rec) (simp add: s cs)
      next
        case u: True
        then obtain h1 h2 h3 h4 t' where t: "t = h1 # h2 # h3 # h4 # t'"
          using 1(2) s nq True cs by (auto split: list.splits)
        then obtain uni :: nat where "prepend (char_of uni) (scanstring t') = Some (a, r)"
          using 1(2) s nq True cs u by (auto split: option.splits if_splits)
        then show ?thesis by (rule rec) (simp add: s cs t)
      qed
    qed
  qed
qed

lemma match_integer_shorter: "match_integer s = Some (a, r) \<Longrightarrow> length r < length s"
  by (cases s)
     (auto simp: match_integer_def le_imp_less_Suc length_dropWhile_le less_SucI
           split: if_splits list.splits)

lemma match_frac_shorter: "length (snd (match_frac s)) \<le> length s"
  by (auto simp: match_frac_def length_dropWhile_le le_SucI split: list.splits)

lemma match_exp_shorter: "length (snd (match_exp s)) \<le> length s"
  by (auto simp: match_exp_def length_dropWhile_le le_SucI split: list.splits)

lemma match_number_shorter: "match_number s = Some (v, r) \<Longrightarrow> length r < length s"
proof -
  assume a: "match_number s = Some (v, r)"
  then obtain i r1 where i: "match_integer s = Some (i, r1)"
    by (auto simp: match_number_def split: option.splits)
  have "r = snd (match_exp (snd (match_frac r1)))"
    using a i by (auto simp: match_number_def Let_def split: prod.splits if_splits)
  then have "length r \<le> length r1"
    using match_exp_shorter [of "snd (match_frac r1)"] match_frac_shorter [of r1] by simp
  then show ?thesis using match_integer_shorter [OF i] by simp
qed

lemma parse_value_atom_shorter:
  assumes "c \<noteq> CHR ''{''" "c \<noteq> CHR ''[''" "parse_value (Suc m) (c # cs) = Some (v, r)"
  shows "length r < length (c # cs)"
proof (cases "c = CHR 0x22")
  case True
  then obtain str where "scanstring cs = Some (str, r)"
    using assms(3) by (auto simp: parse_value_string split: option.splits)
  then show ?thesis using scanstring_shorter by fastforce
next
  case False
  consider (lit) k where "r = drop k cs"
    | (num) "match_number (c # cs) = Some (v, r)"
    using assms False
    by (simp add: parse_simps split: if_splits option.splits) blast+
  then show ?thesis
  proof cases
    case lit
    then show ?thesis by simp
  next
    case num
    then show ?thesis by (rule match_number_shorter)
  qed
qed

lemmas parse_value_mono = parse_mono [THEN conjunct1, rule_format]
lemmas parse_elems_mono = parse_mono [THEN conjunct2, THEN conjunct1, rule_format]
lemmas parse_members_mono = parse_mono [THEN conjunct2, THEN conjunct2, rule_format]

lemma parse_elems_cases:
  assumes "parse_elems (Suc m) s = Some (vs, r)"
  obtains (last) v r1 where "parse_value m s = Some (v, r1)" "skip_ws r1 = CHR '']'' # r" "vs = [v]"
  | (more) v r1 r' vs' where "parse_value m s = Some (v, r1)" "skip_ws r1 = CHR '','' # r'"
      "parse_elems m (skip_ws r') = Some (vs', r)" "vs = v # vs'"
  using assms
  by (auto simp: parse_elems.simps split: option.splits list.splits if_splits)

lemma parse_members_cases:
  assumes "parse_members (Suc m) s = Some (ps, r)"
  obtains (last) key r0 r1 v r2 where "scanstring s = Some (key, r0)" "skip_ws r0 = CHR '':'' # r1"
      "parse_value m (skip_ws r1) = Some (v, r2)" "skip_ws r2 = CHR ''}'' # r" "ps = [(key, v)]"
  | (more) key r0 r1 v r2 r3 r4 ps' where "scanstring s = Some (key, r0)" "skip_ws r0 = CHR '':'' # r1"
      "parse_value m (skip_ws r1) = Some (v, r2)" "skip_ws r2 = CHR '','' # r3"
      "skip_ws r3 = CHR 0x22 # r4" "parse_members m r4 = Some (ps', r)" "ps = (key, v) # ps'"
  using assms
  by (auto simp: parse_members.simps split: option.splits list.splits if_splits)

lemma skip_ws_Cons_shorter: "skip_ws s = d # r \<Longrightarrow> length r < length s"
  using length_skip_ws [of s] by simp

lemma parse_consumes:
  "(parse_value m s = Some (v, r) \<longrightarrow>
      length r < length s \<and> parse_value (length s - length r) s = Some (v, r))
   \<and> (parse_elems m s = Some (vs, r) \<longrightarrow>
      length r < length s \<and> parse_elems (length s - length r) s = Some (vs, r))
   \<and> (parse_members m s = Some (ps, r) \<longrightarrow>
      length r < length s \<and> parse_members (length s - length r) s = Some (ps, r))"
proof (induction m arbitrary: s v vs ps r)
  case 0
  then show ?case by (simp add: parse_simps)
next
  case (Suc m)
  note IHv = Suc.IH [THEN conjunct1, rule_format]
  note IHe = Suc.IH [THEN conjunct2, THEN conjunct1, rule_format]
  note IHm = Suc.IH [THEN conjunct2, THEN conjunct2, rule_format]
  have V: "length r < length s \<and> parse_value (length s - length r) s = Some (v, r)"
    if a: "parse_value (Suc m) s = Some (v, r)"
  proof -
    obtain c cs where s: "s = c # cs" using a by (cases s) (simp_all add: parse_simps)
    show ?thesis
    proof (cases "c = CHR ''{'' \<or> c = CHR ''[''")
      case False
      then have l: "length r < length s"
        using parse_value_atom_shorter [of c m cs v r] a s by simp
      define k where "k = length s - length r - 1"
      have k: "length s - length r = Suc k" using l unfolding k_def by auto
      show ?thesis using l k a s False parse_value_atom [of c k cs m] by simp
    next
      case True
      then obtain d r0 where d: "skip_ws cs = d # r0"
        using a s by (cases "skip_ws cs") (auto simp: parse_value_dict parse_value_list)
      note l0 = skip_ws_Cons_shorter [OF d]
      show ?thesis
      proof (cases "c = CHR ''{''")
        case brace: True
        show ?thesis
        proof (cases "d = CHR ''}''")
          case True
          then have r: "r = r0" "v = JDict []" using a s brace d by (simp_all add: parse_value_dict)
          define k where "k = length s - length r - 1"
          have k: "length s - length r = Suc k"
            using l0 r s unfolding k_def by auto
          show ?thesis using l0 r s brace d True k by (simp add: parse_value_dict)
        next
          case False
          then obtain pairs where p: "d = CHR 0x22" "parse_members m r0 = Some (pairs, r)"
            "v = JDict (dict_of_pairs pairs)"
            using a s brace d by (auto simp: parse_value_dict split: if_splits option.splits)
          from IHm [OF p(2)] have i: "length r < length r0"
            "parse_members (length r0 - length r) r0 = Some (pairs, r)" by simp_all
          have l: "length r < length s" using i(1) l0 s by simp
          define k where "k = length s - length r - 1"
          have k: "length s - length r = Suc k" "length r0 - length r \<le> k"
            using l l0 i(1) s unfolding k_def by auto
          have "parse_members k r0 = Some (pairs, r)"
            by (rule parse_members_mono [OF i(2) k(2)])
          then show ?thesis using l k(1) s brace d p False by (simp add: parse_value_dict)
        qed
      next
        case nb: False
        then have br: "c = CHR ''[''" using True by simp
        show ?thesis
        proof (cases "d = CHR '']''")
          case True
          then have r: "r = r0" "v = JList []" using a s br d by (simp_all add: parse_value_list)
          define k where "k = length s - length r - 1"
          have k: "length s - length r = Suc k"
            using l0 r s unfolding k_def by auto
          show ?thesis using l0 r s br d True k by (simp add: parse_value_list)
        next
          case False
          then obtain vals where p: "parse_elems m (d # r0) = Some (vals, r)" "v = JList vals"
            using a s br d by (auto simp: parse_value_list split: if_splits option.splits)
          from IHe [OF p(1)] have i: "length r < length (d # r0)"
            "parse_elems (length (d # r0) - length r) (d # r0) = Some (vals, r)" by simp_all
          have l: "length r < length s" using i(1) l0 s by simp
          define k where "k = length s - length r - 1"
          have k: "length s - length r = Suc k" "length (d # r0) - length r \<le> k"
            using l l0 i(1) s unfolding k_def by auto
          have "parse_elems k (d # r0) = Some (vals, r)"
            by (rule parse_elems_mono [OF i(2) k(2)])
          then show ?thesis using l k(1) s br d p False by (simp add: parse_value_list)
        qed
      qed
    qed
  qed
  have E: "length r < length s \<and> parse_elems (length s - length r) s = Some (vs, r)"
    if a: "parse_elems (Suc m) s = Some (vs, r)"
    using a
  proof (cases rule: parse_elems_cases)
    case (last v r1)
    from IHv [OF last(1)] have i: "length r1 < length s"
      "parse_value (length s - length r1) s = Some (v, r1)" by simp_all
    note l1 = skip_ws_Cons_shorter [OF last(2)]
    have l: "length r < length s" using i(1) l1 by simp
    define k where "k = length s - length r - 1"
    have k: "length s - length r = Suc k" "length s - length r1 \<le> k"
      using l l1 i(1) unfolding k_def by auto
    have "parse_value k s = Some (v, r1)" by (rule parse_value_mono [OF i(2) k(2)])
    then show ?thesis using l k(1) last by (simp add: parse_elems.simps)
  next
    case (more v r1 r' vs')
    from IHv [OF more(1)] have i: "length r1 < length s"
      "parse_value (length s - length r1) s = Some (v, r1)" by simp_all
    note l1 = skip_ws_Cons_shorter [OF more(2)]
    from IHe [OF more(3)] have j: "length r < length (skip_ws r')"
      "parse_elems (length (skip_ws r') - length r) (skip_ws r') = Some (vs', r)" by simp_all
    note l2 = length_skip_ws [of r']
    have l: "length r < length s" using i(1) l1 j(1) l2 by simp
    define k where "k = length s - length r - 1"
    have k: "length s - length r = Suc k" "length s - length r1 \<le> k"
      "length (skip_ws r') - length r \<le> k"
      using l l1 l2 i(1) j(1) unfolding k_def by auto
    have "parse_value k s = Some (v, r1)" by (rule parse_value_mono [OF i(2) k(2)])
    moreover have "parse_elems k (skip_ws r') = Some (vs', r)" by (rule parse_elems_mono [OF j(2) k(3)])
    ultimately show ?thesis using l k(1) more by (simp add: parse_elems.simps)
  qed
  have M: "length r < length s \<and> parse_members (length s - length r) s = Some (ps, r)"
    if a: "parse_members (Suc m) s = Some (ps, r)"
    using a
  proof (cases rule: parse_members_cases)
    case (last key r0 r1 v r2)
    note l0 = scanstring_shorter [OF last(1)]
    note l1 = skip_ws_Cons_shorter [OF last(2)]
    from IHv [OF last(3)] have i: "length r2 < length (skip_ws r1)"
      "parse_value (length (skip_ws r1) - length r2) (skip_ws r1) = Some (v, r2)" by simp_all
    note l2 = length_skip_ws [of r1]
    note l3 = skip_ws_Cons_shorter [OF last(4)]
    have l: "length r < length s" using l0 l1 l2 l3 i(1) by simp
    define k where "k = length s - length r - 1"
    have k: "length s - length r = Suc k" "length (skip_ws r1) - length r2 \<le> k"
      using l l0 l1 l2 l3 i(1) unfolding k_def by auto
    have "parse_value k (skip_ws r1) = Some (v, r2)" by (rule parse_value_mono [OF i(2) k(2)])
    then show ?thesis using l k(1) last by (simp add: parse_members.simps)
  next
    case (more key r0 r1 v r2 r3 r4 ps')
    note l0 = scanstring_shorter [OF more(1)]
    note l1 = skip_ws_Cons_shorter [OF more(2)]
    from IHv [OF more(3)] have i: "length r2 < length (skip_ws r1)"
      "parse_value (length (skip_ws r1) - length r2) (skip_ws r1) = Some (v, r2)" by simp_all
    note l2 = length_skip_ws [of r1]
    note l3 = skip_ws_Cons_shorter [OF more(4)]
    note l4 = skip_ws_Cons_shorter [OF more(5)]
    from IHm [OF more(6)] have j: "length r < length r4"
      "parse_members (length r4 - length r) r4 = Some (ps', r)" by simp_all
    have l: "length r < length s" using l0 l1 l2 l3 l4 i(1) j(1) by simp
    define k where "k = length s - length r - 1"
    have k: "length s - length r = Suc k" "length (skip_ws r1) - length r2 \<le> k"
      "length r4 - length r \<le> k"
      using l l0 l1 l2 l3 l4 i(1) j(1) unfolding k_def by auto
    have "parse_value k (skip_ws r1) = Some (v, r2)" by (rule parse_value_mono [OF i(2) k(2)])
    moreover have "parse_members k r4 = Some (ps', r)" by (rule parse_members_mono [OF j(2) k(3)])
    ultimately show ?thesis using l k(1) more by (simp add: parse_members.simps)
  qed
  show ?case using V E M by blast
qed

text \<open>Whatever some bound lets the scanner read, the bound of \<open>json_decode\<close> lets it read.\<close>

lemma parse_value_enough:
  assumes "parse_value m s = Some (v, r)"
  shows "parse_value (Suc (length s)) s = Some (v, r)"
proof -
  from parse_consumes [THEN conjunct1, rule_format, OF assms]
  have "parse_value (length s - length r) s = Some (v, r)" by simp
  then show ?thesis by (rule parse_value_mono) simp
qed

lemma json_decode_enough:
  assumes "parse_value m (skip_ws s) = Some (v, r)" "skip_ws r = []"
  shows "json_decode s = Some v"
proof -
  have "parse_value (Suc (length (skip_ws s))) (skip_ws s) = Some (v, r)"
    by (rule parse_value_enough [OF assms(1)])
  then have "parse_value (Suc (length s)) (skip_ws s) = Some (v, r)"
    by (rule parse_value_mono) (simp add: length_skip_ws)
  then show ?thesis using assms(2) by (simp add: json_decode_def)
qed


subsection \<open>Creation followed by a status read\<close>

lemma json_loads_dumps: "wf_json v \<Longrightarrow> json_loads (json_dumps v) = Inr v"
  by (simp add: json_loads_def json_decode_dumps)


lemma json_dumps_nonempty: "wf_json v \<Longrightarrow> json_dumps v \<noteq> []"
  using starts_value_dumps [of v] by (auto simp: starts_value_def)


lemma get_task_status_stored:
  assumes "redis_get None (get_task_key task_id) (store w) = Inr (Some (json_dumps v))" "wf_json v"
  shows "fst (get_task_status print_fault None task_id w) = Inr v"
  using assms json_dumps_nonempty [OF assms(2)]
  by (simp add: get_task_status_def get_task_status_body_def json_loads_dumps)








subsection \<open>The polling loop\<close>

lemma get_task_status_fst:
  "fst (get_task_status print_fault fault task_id w)
     = fst (get_task_status print_fault fault task_id \<lparr>store = store w, queue = [], sent = []\<rparr>)"
  by (simp add: get_task_status_def get_task_status_body_def split: sum.splits)

lemma get_task_status_snd:
  "snd (get_task_status print_fault fault task_id w) = issue (Get (get_task_key task_id)) w"
  by (simp add: get_task_status_def split: sum.splits)

lemma get_task_status_printed:
  "\<exists>task_data. fst (get_task_status None fault task_id w) = Inr task_data"
  by (simp add: get_task_status_def print_line_def split: sum.splits)

lemma observed_status_world:
  "(case fst (get_task_status None fault task_id w) of
      Inl e \<Rightarrow> Inl e
    | Inr task_data \<Rightarrow> dict_get task_data ''status'' (JStr ''UNKNOWN''))
     = observed_status fault task_id (store w)"
  unfolding observed_status_def by (subst get_task_status_fst) simp


lemma poll_loop_stops:
  assumes "attempt \<le> max_attempts"
    and "observed_status (faults attempt) task_id (store w) = Inr status"
    and "status = JStr ''NOT_FOUND'' \<or> status = JStr ''ERROR''"
  shows "poll_loop faults others task_id poll_interval max_attempts attempt w
           = (Inr None, issue (Get (get_task_key task_id)) w)"
proof -
  obtain td where f: "fst (get_task_status None (faults attempt) task_id w) = Inr td"
    using get_task_status_printed by blast
  obtain w1 where g: "get_task_status None (faults attempt) task_id w = (Inr td, w1)"
    using f by (cases "get_task_status None (faults attempt) task_id w") simp
  have w1: "w1 = issue (Get (get_task_key task_id)) w"
    using get_task_status_snd [of None "faults attempt" task_id w] g by simp
  have d: "dict_get td ''status'' (JStr ''UNKNOWN'') = Inr status"
    using observed_status_world [of "faults attempt" task_id w] g assms(2) by simp
  show ?thesis
    using assms(1,3) g d w1
    by (subst poll_loop.simps) (auto simp: STATUS_COMPLETED_def STATUS_FAILED_def)
qed



lemma observed_status_stored:
  assumes "redis_get None (get_task_key task_id) r = Inr (Some (json_dumps v))" "wf_json v"
  shows "observed_status None task_id r = dict_get v ''status'' (JStr ''UNKNOWN'')"
  using get_task_status_stored [of task_id "\<lparr>store = r, queue = [], sent = []\<rparr>" v None] assms
  by (simp add: observed_status_def)

lemma observed_status_missing:
  "redis_get None (get_task_key task_id) r = Inr None
     \<Longrightarrow> observed_status None task_id r = Inr (JStr ''NOT_FOUND'')"
  by (simp add: observed_status_def get_task_status_def get_task_status_body_def not_found_def dict_get_def)

lemma observed_status_fault:
  "observed_status (Some e) task_id r = Inr (JStr ''ERROR'')"
  by (simp add: observed_status_def get_task_status_def get_task_status_body_def redis_get_def
      error_status_def dict_get_def print_line_def)



text \<open>
  Claim C6. At any attempt within the budget, from any world: when the read of that
  attempt reports \<open>NOT_FOUND\<close> or \<open>ERROR\<close>, the loop returns \<open>None\<close> at once; it has
  issued that one read and nothing else, neither a sleep nor a further read.
\<close>

theorem poll_stops_on_signal:
  assumes "attempt \<le> max_attempts"
    and "observed_status (faults attempt) task_id (store w) = Inr (JStr ''NOT_FOUND'')
       \<or> observed_status (faults attempt) task_id (store w) = Inr (JStr ''ERROR'')"
  shows "poll_loop faults others task_id poll_interval max_attempts attempt w
           = (Inr None, issue (Get (get_task_key task_id)) w)"
  using assms(2)
proof
  assume "observed_status (faults attempt) task_id (store w) = Inr (JStr ''NOT_FOUND'')"
  from poll_loop_stops [where faults = faults and attempt = attempt, OF assms(1) this]
  show ?thesis by simp
next
  assume "observed_status (faults attempt) task_id (store w) = Inr (JStr ''ERROR'')"
  from poll_loop_stops [where faults = faults and attempt = attempt, OF assms(1) this]
  show ?thesis by simp
qed

lemma observed_init: "observed_status None ''t'' (store init_world) = Inr (JStr ''NOT_FOUND'')"
  by (rule observed_status_missing) (simp add: redis_get_def init_world_def)

theorem poll_stops_on_signal_witness:
  "observed_status (no_faults 1) ''t'' (store init_world) = Inr (JStr ''NOT_FOUND'')
   \<and> poll_loop no_faults alone ''t'' 1 3 1 init_world
       = (Inr None, issue (Get (get_task_key ''t'')) init_world)"
proof -
  have a: "(1::int) \<le> 3" by simp
  have b: "observed_status (no_faults 1) ''t'' (store init_world) = Inr (JStr ''NOT_FOUND'')"
    using observed_init by (simp add: no_faults_def)
  show ?thesis
    using b poll_stops_on_signal [where faults = no_faults and attempt = 1 and others = alone
        and poll_interval = 1, OF a disjI1 [OF b]] by blast
qed

lemma wf_completed_example: "wf_json completed_example"
  by (simp add: completed_example_def)

text \<open>
  A miss is not tolerated: with three attempts allowed and the record absent at the first
  read, \<open>poll_result\<close> returns \<open>None\<close> after that read, although the record would have
  been there, completed, after the first sleep.
\<close>

theorem transient_miss_not_tolerated:
  "poll_result no_faults late_writer ''t'' 1 3 init_world
     = (Inr None, issue (Get (get_task_key ''t'')) init_world)
   \<and> observed_status None ''t'' (late_writer 1 (store init_world)) = Inr (JStr ''COMPLETED'')"
proof -
  have a: "(1::int) \<le> 3" by simp
  have b: "observed_status (no_faults 1) ''t'' (store init_world) = Inr (JStr ''NOT_FOUND'')"
    using observed_init by (simp add: no_faults_def)
  have 1: "poll_result no_faults late_writer ''t'' 1 3 init_world
     = (Inr None, issue (Get (get_task_key ''t'')) init_world)"
    unfolding poll_result_def
    by (rule poll_loop_stops [where faults = no_faults and attempt = 1, OF a b]) simp
  have "redis_get None (get_task_key ''t'') (late_writer 1 (store init_world))
          = Inr (Some (json_dumps completed_example))"
    by (simp add: redis_get_def late_writer_def init_world_def)
  from observed_status_stored [OF this wf_completed_example]
  have 2: "observed_status None ''t'' (late_writer 1 (store init_world)) = Inr (JStr ''COMPLETED'')"
    by (simp add: completed_example_def dict_get_def)
  from 1 2 show ?thesis by (rule conjI)
qed

lemma json_loads_empty_object: "json_loads ''{}'' = Inr (JDict [])"
  by (simp add: json_loads_def json_decode_def parse_value_dict skip_ws_def is_ws_def)

text \<open>
  A stored text that is valid JSON is returned as decoded, whatever it holds: for the text
  \<open>{}\<close> the result is the empty \<open>dict\<close>, which has neither key. And when the read fails
  and the terminal refuses the line the handler prints, the exception of \<open>print\<close> reaches
  the caller.
\<close>

theorem stray_value_lacks_keys:
  "fst (get_task_status None None ''t'' stray_world) = Inr (JDict [])
   \<and> \<not> has_task_id_and_status (JDict [])
   \<and> fst (get_task_status (Some closed_terminal) (Some (RedisError ''down'')) ''t'' init_world)
       = Inl closed_terminal"
  by (simp add: get_task_status_def get_task_status_body_def redis_get_def stray_world_def
      json_loads_empty_object has_task_id_and_status_def print_line_def)

lemma get_task_status_raises:
  "(\<exists>e'. fst (get_task_status print_fault fault task_id w) = Inl e')
     \<longleftrightarrow> print_fault \<noteq> None \<and> (\<exists>e. get_task_status_body fault task_id w = Inl e)"
  by (cases "get_task_status_body fault task_id w"; cases print_fault)
     (simp_all add: get_task_status_def print_line_def)

lemma get_task_status_keys:
  assumes "fst (get_task_status print_fault fault task_id w) = Inr d"
  shows "has_task_id_and_status d
       \<or> (\<exists>text. redis_get fault (get_task_key task_id) (store w) = Inr (Some text) \<and> text \<noteq> []
             \<and> json_loads text = Inr d)"
  using assms
  by (auto simp: get_task_status_def get_task_status_body_def has_task_id_and_status_def
      error_status_def not_found_def print_line_def split: sum.splits option.splits if_splits)

text \<open>
  Claim C10. An exception raised in the body of \<open>get_task_status\<close>, by the read or by
  the decoding, is turned into the \<open>ERROR\<close> record: with a terminal that accepts the line
  the handler prints, the method returns a value whatever the store does, and it raises
  only where the body has raised and that \<open>print\<close> raises in its turn. The value returned
  has the keys \<open>task_id\<close> and \<open>status\<close>, or it is the decoded value of a non-empty stored
  text, returned as it is; it has the two keys when the stored text is the serialisation
  of a record that has them.
\<close>

theorem get_task_status_total:
  "(get_task_status_body fault task_id w = Inl e \<longrightarrow>
      fst (get_task_status None fault task_id w) = Inr (error_status task_id e)
      \<and> has_task_id_and_status (error_status task_id e))
   \<and> (\<exists>d. fst (get_task_status None fault task_id w) = Inr d)
   \<and> ((\<exists>e'. fst (get_task_status print_fault fault task_id w) = Inl e')
        \<longleftrightarrow> print_fault \<noteq> None \<and> (\<exists>e. get_task_status_body fault task_id w = Inl e))
   \<and> (fst (get_task_status print_fault fault task_id w) = Inr d \<longrightarrow>
        has_task_id_and_status d
        \<or> (\<exists>text. redis_get fault (get_task_key task_id) (store w) = Inr (Some text) \<and> text \<noteq> []
              \<and> json_loads text = Inr d))
   \<and> (wf_json v \<and> has_task_id_and_status v
        \<and> redis_get None (get_task_key task_id) (store w) = Inr (Some (json_dumps v)) \<longrightarrow>
      fst (get_task_status print_fault None task_id w) = Inr v)"
proof (intro conjI impI)
  assume "get_task_status_body fault task_id w = Inl e"
  then show "fst (get_task_status None fault task_id w) = Inr (error_status task_id e)"
    by (simp add: get_task_status_def print_line_def)
next
  show "has_task_id_and_status (error_status task_id e)"
    by (simp add: has_task_id_and_status_def error_status_def)
next
  show "\<exists>d. fst (get_task_status None fault task_id w) = Inr d"
    by (rule get_task_status_printed)
next
  show "(\<exists>e'. fst (get_task_status print_fault fault task_id w) = Inl e')
        \<longleftrightarrow> print_fault \<noteq> None \<and> (\<exists>e. get_task_status_body fault task_id w = Inl e)"
    by (rule get_task_status_raises)
next
  assume "fst (get_task_status print_fault fault task_id w) = Inr d"
  then show "has_task_id_and_status d
        \<or> (\<exists>text. redis_get fault (get_task_key task_id) (store w) = Inr (Some text) \<and> text \<noteq> []
              \<and> json_loads text = Inr d)"
    by (rule get_task_status_keys)
next
  assume "wf_json v \<and> has_task_id_and_status v
        \<and> redis_get None (get_task_key task_id) (store w) = Inr (Some (json_dumps v))"
  then show "fst (get_task_status print_fault None task_id w) = Inr v"
    using get_task_status_stored [of task_id w v print_fault] by simp
qed

lemma stored_example:
  "redis_get None (get_task_key ''t'') (late_writer 1 (store init_world))
     = Inr (Some (json_dumps completed_example))"
  by (simp add: redis_get_def late_writer_def init_world_def)

theorem get_task_status_total_witness:
  "get_task_status_body (Some (RedisError ''down'')) ''t'' init_world = Inl (RedisError ''down'')
   \<and> fst (get_task_status None (Some (RedisError ''down'')) ''t'' init_world)
       = Inr (error_status ''t'' (RedisError ''down''))
   \<and> fst (get_task_status None None ''t'' init_world) = Inr (not_found ''t'')
   \<and> has_task_id_and_status (not_found ''t'')
   \<and> wf_json completed_example \<and> has_task_id_and_status completed_example
   \<and> redis_get None (get_task_key ''t'') (late_writer 1 (store init_world))
       = Inr (Some (json_dumps completed_example))
   \<and> fst (get_task_status None None ''t''
            \<lparr>store = late_writer 1 (store init_world), queue = [], sent = []\<rparr>)
       = Inr completed_example"
proof -
  have a: "get_task_status_body (Some (RedisError ''down'')) ''t'' init_world = Inl (RedisError ''down'')"
    by (simp add: get_task_status_body_def redis_get_def)
  have b: "fst (get_task_status None None ''t'' init_world) = Inr (not_found ''t'')"
    by (simp add: get_task_status_def get_task_status_body_def redis_get_def init_world_def)
  have c: "\<not> (\<exists>text. redis_get None (get_task_key ''t'') (store init_world) = Inr (Some text)
            \<and> text \<noteq> [] \<and> json_loads text = Inr (not_found ''t''))"
    by (simp add: redis_get_def init_world_def)
  have d: "has_task_id_and_status completed_example"
    by (simp add: has_task_id_and_status_def completed_example_def)
  have e: "redis_get None (get_task_key ''t'')
             (store \<lparr>store = late_writer 1 (store init_world), queue = [], sent = []\<rparr>)
           = Inr (Some (json_dumps completed_example))"
    using stored_example by simp
  show ?thesis
    using a b c d e wf_completed_example stored_example
      get_task_status_total [where fault = "Some (RedisError ''down'')" and task_id = "''t''"
        and w = init_world and e = "RedisError ''down''" and print_fault = None
        and d = "error_status ''t'' (RedisError ''down'')" and v = completed_example]
      get_task_status_total [where fault = None and task_id = "''t''"
        and w = init_world and e = "RedisError ''down''" and print_fault = None
        and d = "not_found ''t''" and v = completed_example]
      get_task_status_total [where fault = None and task_id = "''t''"
        and w = "\<lparr>store = late_writer 1 (store init_world), queue = [], sent = []\<rparr>"
        and e = "RedisError ''down''" and print_fault = None
        and d = completed_example and v = completed_example]
    by blast
qed















subsection \<open>The transitions a worker reports\<close>

lemma map_of_dict_update:
  "map_of (dict_update k v d) k' = (if k' = k then Some v else map_of d k')"
  by (induction d) auto

lemma map_of_dict_remove:
  "map_of (dict_remove k d) k' = (if k' = k then None else map_of d k')"
  by (induction d) (auto simp: dict_remove_def)

lemma status_in_mark_processing:
  "status_in (mark_processing a s) b =
     (if a = b \<and> status_in s a = Some (JStr ''PENDING'') then Some (JStr ''PROCESSING'')
      else status_in s b)"
  by (auto simp: status_in_def mark_processing_def map_of_dict_update STATUS_PROCESSING_def
      STATUS_PENDING_def split: option.splits)

lemma status_in_mark_completed:
  "status_in (mark_completed a res now s) b =
     (if a = b \<and> s a \<noteq> None then Some (JStr ''COMPLETED'') else status_in s b)"
  by (auto simp: status_in_def mark_completed_def map_of_dict_update STATUS_COMPLETED_def
      split: option.splits)

lemma status_in_mark_failed:
  "status_in (mark_failed a err now s) b =
     (if a = b \<and> s a \<noteq> None then Some (JStr ''FAILED'') else status_in s b)"
  by (auto simp: status_in_def mark_failed_def map_of_dict_update STATUS_FAILED_def
      split: option.splits)

lemmas status_in_mark = status_in_mark_processing status_in_mark_completed status_in_mark_failed

lemmas status_defs = STATUS_PENDING_def STATUS_PROCESSING_def STATUS_COMPLETED_def STATUS_FAILED_def

lemma terminal_apply_mark:
  "terminal (status_in s task_id) \<Longrightarrow> terminal (status_in (apply_mark s m) task_id)"
  by (cases m) (auto simp: status_in_mark terminal_def status_defs)

lemma progress_apply_mark:
  "progress (status_in s task_id) = Some i
     \<Longrightarrow> \<exists>j. progress (status_in (apply_mark s m) task_id) = Some j \<and> i \<le> j"
  by (cases m) (auto simp: status_in_mark progress_def status_defs split: if_splits)

lemma terminal_apply_marks:
  "terminal (status_in s task_id) \<Longrightarrow> terminal (status_in (apply_marks ms s) task_id)"
  unfolding apply_marks_def
proof (induction ms arbitrary: s)
  case Nil
  then show ?case by simp
next
  case (Cons m ms)
  have "terminal (status_in (apply_mark s m) task_id)"
    by (rule terminal_apply_mark [OF Cons.prems])
  then show ?case using Cons.IH by simp
qed

lemma progress_apply_marks:
  "progress (status_in s task_id) = Some i
     \<Longrightarrow> \<exists>j. progress (status_in (apply_marks ms s) task_id) = Some j \<and> i \<le> j"
  unfolding apply_marks_def
proof (induction ms arbitrary: s i)
  case Nil
  then show ?case by simp
next
  case (Cons m ms)
  obtain j where j: "progress (status_in (apply_mark s m) task_id) = Some j" "i \<le> j"
    using progress_apply_mark [OF Cons.prems] by blast
  obtain k where "progress (status_in (foldl apply_mark (apply_mark s m) ms) task_id) = Some k" "j \<le> k"
    using Cons.IH [OF j(1)] by blast
  then show ?case using j(2) by auto
qed

text \<open>
  Claim C2. Once the status of a record is \<open>COMPLETED\<close> or \<open>FAILED\<close>, every sequence of
  \<open>mark_processing\<close>, \<open>mark_completed\<close> and \<open>mark_failed\<close> calls, on any task ids,
  leaves it \<open>COMPLETED\<close> or \<open>FAILED\<close>: none makes it \<open>PENDING\<close> or \<open>PROCESSING\<close>. And
  from any of the four statuses a sequence of calls moves the status forward along
  \<open>PENDING\<close>, \<open>PROCESSING\<close>, \<open>COMPLETED\<close> or \<open>FAILED\<close>, or leaves it where it is.
\<close>

theorem terminal_status_after_marks:
  "(terminal (status_in s task_id) \<longrightarrow>
      terminal (status_in (apply_marks ms s) task_id)
      \<and> status_in (apply_marks ms s) task_id \<noteq> Some (JStr STATUS_PENDING)
      \<and> status_in (apply_marks ms s) task_id \<noteq> Some (JStr STATUS_PROCESSING))
   \<and> (progress (status_in s task_id) = Some i \<longrightarrow>
      (\<exists>j. progress (status_in (apply_marks ms s) task_id) = Some j \<and> i \<le> j))"
proof (intro conjI impI)
  assume t: "terminal (status_in s task_id)"
  show t': "terminal (status_in (apply_marks ms s) task_id)"
    by (rule terminal_apply_marks [OF t])
  show "status_in (apply_marks ms s) task_id \<noteq> Some (JStr STATUS_PENDING)"
    using t' by (auto simp: terminal_def status_defs)
  show "status_in (apply_marks ms s) task_id \<noteq> Some (JStr STATUS_PROCESSING)"
    using t' by (auto simp: terminal_def status_defs)
next
  assume "progress (status_in s task_id) = Some i"
  then show "\<exists>j. progress (status_in (apply_marks ms s) task_id) = Some j \<and> i \<le> j"
    by (rule progress_apply_marks)
qed

theorem terminal_status_after_marks_witness:
  "terminal (status_in done_records ''t'')
   \<and> progress (status_in new_records ''t'') = Some 0
   \<and> status_in (apply_marks [MarkProcessing ''t'', MarkFailed ''t'' ''late'' ''2.5'',
                               MarkProcessing ''t'', MarkCompleted ''t'' ''again'' ''3.5'',
                               MarkProcessing ''t''] done_records) ''t''
       \<noteq> Some (JStr STATUS_PROCESSING)
   \<and> terminal (status_in (apply_marks [MarkProcessing ''t'', MarkFailed ''t'' ''late'' ''2.5'',
                               MarkProcessing ''t'', MarkCompleted ''t'' ''again'' ''3.5'',
                               MarkProcessing ''t''] done_records) ''t'')
   \<and> (\<exists>j. progress (status_in (apply_marks [MarkProcessing ''t'', MarkProcessing ''t'']
                                   new_records) ''t'') = Some j \<and> 0 \<le> j)"
proof -
  have a: "terminal (status_in done_records ''t'')"
    by (simp add: terminal_def status_in_def done_records_def STATUS_COMPLETED_def)
  have b: "progress (status_in new_records ''t'') = Some 0"
    by (simp add: progress_def status_in_def new_records_def STATUS_PENDING_def)
  show ?thesis
    using a b
      terminal_status_after_marks [where s = done_records and task_id = "''t''"
        and ms = "[MarkProcessing ''t'', MarkFailed ''t'' ''late'' ''2.5'',
                   MarkProcessing ''t'', MarkCompleted ''t'' ''again'' ''3.5'',
                   MarkProcessing ''t'']" and i = 0]
      terminal_status_after_marks [where s = new_records and task_id = "''t''"
        and ms = "[MarkProcessing ''t'', MarkProcessing ''t'']" and i = 0]
    by blast
qed

end
